theory Spec2Isabelle
  imports Main "HOL-Library.List_Lexorder" "HOL-Library.AList" "HOL-Library.Sublist"
begin

section \<open>Text\<close>

text \<open>
  A Python \<open>str\<close> is the list of its code points, which are integers, and strings are
  ordered lexicographically by code point, as Python compares them. \<open>asc\<close> gives the
  code points of an ASCII literal.
\<close>

type_synonym str = "int list"

abbreviation asc :: "string \<Rightarrow> str" where
  "asc s \<equiv> map of_char s"

abbreviation LF :: int where "LF \<equiv> 0x0A"
abbreviation CR :: int where "CR \<equiv> 0x0D"
abbreviation DQUOTE :: int where "DQUOTE \<equiv> 0x22"
abbreviation SQUOTE :: int where "SQUOTE \<equiv> 0x27"
abbreviation COLON :: int where "COLON \<equiv> 0x3A"

text \<open>
  The tables of the Unicode database that the program consults through \<open>\w\<close> and
  \<open>str.lower\<close>, and that are no part of it: \<open>alnum c\<close> is \<open>str.isalnum\<close> of the
  code point \<open>c\<close>, consulted from 128 on, and \<open>lowered s\<close> is \<open>s.lower()\<close>, consulted
  for a string that is not ASCII. Every function that depends on them takes them as its
  first argument.
\<close>

record unicode =
  alnum :: "int \<Rightarrow> bool"
  lowered :: "str \<Rightarrow> str"

text \<open>\<open>str.isspace\<close> of a code point, which is the class \<open>\s\<close> as well: the ASCII
  controls \<open>0x09..0x0D\<close> and \<open>0x1C..0x1F\<close>, the space, and the Unicode whitespace
  beyond ASCII.\<close>

definition WHITESPACE :: "int list" where
  "WHITESPACE =
     [0x09, 0x0A, 0x0B, 0x0C, 0x0D, 0x1C, 0x1D, 0x1E, 0x1F, 0x20, 0x85, 0xA0, 0x1680,
      0x2000, 0x2001, 0x2002, 0x2003, 0x2004, 0x2005, 0x2006, 0x2007, 0x2008, 0x2009,
      0x200A, 0x2028, 0x2029, 0x202F, 0x205F, 0x3000]"

definition is_space :: "int \<Rightarrow> bool" where
  "is_space c = (c \<in> set WHITESPACE)"

text \<open>The class \<open>\w\<close>: the underscore and the alphanumeric code points, which in ASCII
  are the digits and the letters.\<close>

definition is_word :: "unicode \<Rightarrow> int \<Rightarrow> bool" where
  "is_word U c =
     (c = 0x5F \<or>
      (if c < 128 then (0x30 \<le> c \<and> c \<le> 0x39) \<or> (0x41 \<le> c \<and> c \<le> 0x5A) \<or> (0x61 \<le> c \<and> c \<le> 0x7A)
       else alnum U c))"

text \<open>\<open>str.lower()\<close>: on an ASCII string, the letters \<open>A..Z\<close> become \<open>a..z\<close>.\<close>

definition lower_ascii :: "int \<Rightarrow> int" where
  "lower_ascii c = (if 0x41 \<le> c \<and> c \<le> 0x5A then c + 0x20 else c)"

definition lower :: "unicode \<Rightarrow> str \<Rightarrow> str" where
  "lower U s = (if list_all (\<lambda>c. c < 128) s then map lower_ascii s else lowered U s)"

text \<open>\<open>str.strip()\<close>: leading and trailing whitespace removed.\<close>

definition strip :: "str \<Rightarrow> str" where
  "strip s = rev (dropWhile is_space (rev (dropWhile is_space s)))"

text \<open>The line boundaries of \<open>str.splitlines()\<close>: LF, CR (and CR LF as one), VT, FF,
  the separators \<open>0x1C..0x1E\<close>, NEL, and the line and paragraph separators.\<close>

definition LINE_BOUNDARIES :: "int list" where
  "LINE_BOUNDARIES = [0x0A, 0x0B, 0x0C, 0x0D, 0x1C, 0x1D, 0x1E, 0x85, 0x2028, 0x2029]"

definition is_linebreak :: "int \<Rightarrow> bool" where
  "is_linebreak c = (c \<in> set LINE_BOUNDARIES)"

text \<open>\<open>splitlines_from cur s\<close>: the lines of \<open>s\<close>, \<open>cur\<close> being the line read so far. The
  boundaries are dropped, and a text that ends in a boundary has no empty last line.\<close>

fun splitlines_from :: "str \<Rightarrow> str \<Rightarrow> str list" where
  "splitlines_from cur [] = (if cur = [] then [] else [cur])"
| "splitlines_from cur [c] =
     (if is_linebreak c then [cur] else [cur @ [c]])"
| "splitlines_from cur (c # d # s) =
     (if c = CR \<and> d = LF then cur # splitlines_from [] s
      else if is_linebreak c then cur # splitlines_from [] (d # s)
      else splitlines_from (cur @ [c]) (d # s))"

definition splitlines :: "str \<Rightarrow> str list" where
  "splitlines s = splitlines_from [] s"

text \<open>\<open>sep.join(xs)\<close>.\<close>

fun join :: "str \<Rightarrow> str list \<Rightarrow> str" where
  "join sep [] = []"
| "join sep [x] = x"
| "join sep (x # y # ys) = x @ sep @ join sep (y # ys)"

text \<open>The decimal digits of a number, as an f-string writes it.\<close>

fun str_nat :: "nat \<Rightarrow> str" where
  "str_nat n = (if n < 10 then [0x30 + int n] else str_nat (n div 10) @ [0x30 + int (n mod 10)])"

declare str_nat.simps [simp del]

section \<open>Regular expressions\<close>

text \<open>
  The fragment of Python's \<open>re\<close> that the four patterns of the program use, with the
  backtracking order of \<open>re.match\<close>: a greedy quantifier tries the longest repetition first,
  a lazy one the shortest, and the first alternative that lets the rest of the pattern
  match is taken. Quantifiers range over single characters only.
\<close>

datatype atom =
    Lit int     \<comment> \<open>a literal character\<close>
  | Space       \<comment> \<open>\<open>\s\<close>\<close>
  | Word        \<comment> \<open>\<open>\w\<close>\<close>
  | Dot         \<comment> \<open>\<open>.\<close>: any character but LF\<close>
  | DotAll      \<comment> \<open>\<open>.\<close> under \<open>re.DOTALL\<close>: any character\<close>

fun accepts :: "unicode \<Rightarrow> atom \<Rightarrow> int \<Rightarrow> bool" where
  "accepts U (Lit a) c = (c = a)"
| "accepts U Space c = is_space c"
| "accepts U Word c = is_word U c"
| "accepts U Dot c = (c \<noteq> LF)"
| "accepts U DotAll c = True"

datatype node =
    One atom        \<comment> \<open>\<open>a\<close>\<close>
  | Star atom       \<comment> \<open>\<open>a*\<close>, greedy\<close>
  | Plus atom       \<comment> \<open>\<open>a+\<close>, greedy\<close>
  | LazyStar atom   \<comment> \<open>\<open>a*?\<close>\<close>
  | GOpen           \<comment> \<open>\<open>(\<close>\<close>
  | GClose          \<comment> \<open>\<open>)\<close>\<close>
  | Eos             \<comment> \<open>\<open>$\<close>: the end of the text, or just before an LF that ends it\<close>

text \<open>
  \<open>run U p s os gs\<close> matches the pattern \<open>p\<close> at the start of \<open>s\<close>. \<open>os\<close> holds, for
  each group that is open, the text that was left where it opened; \<open>gs\<close> the groups closed
  so far. The result is the groups of the first match found, or \<open>None\<close>.
\<close>

fun run :: "unicode \<Rightarrow> node list \<Rightarrow> str \<Rightarrow> str list \<Rightarrow> str list \<Rightarrow> str list option" where
  "run U [] s os gs = Some gs"
| "run U (One a # p) [] os gs = None"
| "run U (One a # p) (c # s) os gs = (if accepts U a c then run U p s os gs else None)"
| "run U (Star a # p) [] os gs = run U p [] os gs"
| "run U (Star a # p) (c # s) os gs =
     (if accepts U a c then
        (case run U (Star a # p) s os gs of
           Some r \<Rightarrow> Some r
         | None \<Rightarrow> run U p (c # s) os gs)
      else run U p (c # s) os gs)"
| "run U (Plus a # p) [] os gs = None"
| "run U (Plus a # p) (c # s) os gs = (if accepts U a c then run U (Star a # p) s os gs else None)"
| "run U (LazyStar a # p) [] os gs = run U p [] os gs"
| "run U (LazyStar a # p) (c # s) os gs =
     (case run U p (c # s) os gs of
        Some r \<Rightarrow> Some r
      | None \<Rightarrow> if accepts U a c then run U (LazyStar a # p) s os gs else None)"
| "run U (GOpen # p) s os gs = run U p s (s # os) gs"
| "run U (GClose # p) s [] gs = None"
| "run U (GClose # p) s (b # os) gs = run U p s os (gs @ [take (length b - length s) b])"
| "run U (Eos # p) s os gs = (if s = [] \<or> s = [LF] then run U p s os gs else None)"

text \<open>\<open>re.match(p, s)\<close>: anchored at the start of \<open>s\<close>, where \<open>^\<close> holds.\<close>

definition re_match :: "unicode \<Rightarrow> node list \<Rightarrow> str \<Rightarrow> str list option" where
  "re_match U p s = run U p s [] []"

definition lits :: "str \<Rightarrow> node list" where
  "lits s = map (\<lambda>c. One (Lit c)) s"

section \<open>The front-matter parser\<close>

text \<open>\<^verbatim>\<open>^---\s*\n(.*?\n)---\s*\n\<close> with \<open>re.DOTALL\<close>.\<close>

definition FRONT_MATTER :: "node list" where
  "FRONT_MATTER = lits (asc ''---'') @ [Star Space, One (Lit LF),
     GOpen, LazyStar DotAll, One (Lit LF), GClose] @ lits (asc ''---'') @ [Star Space, One (Lit LF)]"

text \<open>\<^verbatim>\<open>^(\w+)\s*:\s*\<close>, the start of the three line patterns.\<close>

definition KEY :: "node list" where
  "KEY = [GOpen, Plus Word, GClose, Star Space, One (Lit COLON), Star Space]"

text \<open>\<^verbatim>\<open>^(\w+)\s*:\s*"(.+)"$\<close>\<close>

definition DOUBLE_QUOTED :: "node list" where
  "DOUBLE_QUOTED = KEY @ [One (Lit DQUOTE), GOpen, Plus Dot, GClose, One (Lit DQUOTE), Eos]"

text \<open>\<^verbatim>\<open>^(\w+)\s*:\s*'(.+)'$\<close>\<close>

definition SINGLE_QUOTED :: "node list" where
  "SINGLE_QUOTED = KEY @ [One (Lit SQUOTE), GOpen, Plus Dot, GClose, One (Lit SQUOTE), Eos]"

text \<open>\<^verbatim>\<open>^(\w+)\s*:\s*(.+)$\<close>\<close>

definition BARE :: "node list" where
  "BARE = KEY @ [GOpen, Plus Dot, GClose, Eos]"

text \<open>The three attempts of the loop body, in the order of the source.\<close>

definition match_line :: "unicode \<Rightarrow> str \<Rightarrow> str list option" where
  "match_line U line =
     (case re_match U DOUBLE_QUOTED line of
        Some m \<Rightarrow> Some m
      | None \<Rightarrow>
         (case re_match U SINGLE_QUOTED line of
            Some m \<Rightarrow> Some m
          | None \<Rightarrow> re_match U BARE line))"

text \<open>\<^verbatim>\<open>if m: front_matter[m.group(1)] = m.group(2).strip()\<close>. A match of a line pattern
  has its two groups.\<close>

definition store_line :: "unicode \<Rightarrow> str \<Rightarrow> (str \<rightharpoonup> str) \<Rightarrow> (str \<rightharpoonup> str)" where
  "store_line U line front_matter =
     (case match_line U line of
        Some [k, v] \<Rightarrow> front_matter(k \<mapsto> strip v)
      | _ \<Rightarrow> front_matter)"

text \<open>\<open>parse_front_matter\<close>, from the content that was read: \<open>None\<close> when the content does
  not start with a block, otherwise the dictionary of the block's lines.\<close>

definition parse_front_matter :: "unicode \<Rightarrow> str \<Rightarrow> (str \<rightharpoonup> str) option" where
  "parse_front_matter U content =
     (case re_match U FRONT_MATTER content of
        Some [block] \<Rightarrow> Some (fold (store_line U) (splitlines block) Map.empty)
      | _ \<Rightarrow> None)"

section \<open>The generator\<close>

definition CATEGORY_ORDER :: "str list" where
  "CATEGORY_ORDER =
     [asc ''Spring & Spring Boot'',
      asc ''JVM Internals'',
      asc ''Build Tools'',
      asc ''Data & Messaging'',
      asc ''APIs & Protocols'',
      asc ''Observability'',
      asc ''Infrastructure'',
      asc ''Languages & Paradigms'',
      asc ''NewSQL'']"

definition EXCLUDED_FILES :: "str set" where
  "EXCLUDED_FILES = {asc ''README.md'', asc ''CLAUDE.md''}"

text \<open>The directory of the script: its regular files, as pairs of a name and the text
  that reading the file gives. A name is looked up with \<^const>\<open>map_of\<close>.\<close>

type_synonym directory = "(str \<times> str) list"

text \<open>The dictionaries that make an entry of the list of a category.\<close>

record entry =
  title :: str
  description :: str
  filename :: str

text \<open>The dictionary \<open>categories\<close>, in insertion order.\<close>

type_synonym categories = "(str \<times> entry list) list"

datatype error =
    FileNotFoundError   \<comment> \<open>\<open>open\<close> of a name that is not in the directory\<close>
  | KeyError            \<comment> \<open>\<open>categories[c]\<close> for a key that is not in the dictionary\<close>

text \<open>\<open>glob.glob(os.path.join(script_dir, "*.md"))\<close>: the names that end in \<open>.md\<close> and
  do not start with a dot, which \<open>*\<close> does not match.\<close>

definition is_md :: "str \<Rightarrow> bool" where
  "is_md name = (suffix (asc ''.md'') name \<and> take 1 name \<noteq> asc ''.'')"

text \<open>\<open>sorted(glob.glob(...))\<close>. The paths share the directory, so they are in the order
  of their names.\<close>

definition md_files :: "directory \<Rightarrow> str list" where
  "md_files d = sorted_list_of_set (set (filter is_md (map fst d)))"

definition no_front_matter_warning :: "str \<Rightarrow> str" where
  "no_front_matter_warning name = asc ''warning: '' @ name @ asc '' has no front matter, skipping''"

definition missing_fields_warning :: "str \<Rightarrow> str" where
  "missing_fields_warning name =
     asc ''warning: '' @ name @ asc '' missing required front matter fields, skipping''"

text \<open>The truth value of what \<open>fm.get\<close> returns: \<open>None\<close> and the empty string are false.\<close>

definition truthy :: "str option \<Rightarrow> bool" where
  "truthy v = (case v of None \<Rightarrow> False | Some s \<Rightarrow> s \<noteq> [])"

text \<open>\<open>categories.setdefault(category, []).append(e)\<close>\<close>

definition setdefault_append :: "str \<Rightarrow> entry \<Rightarrow> categories \<Rightarrow> categories" where
  "setdefault_append category e cats =
     (case map_of cats category of
        None \<Rightarrow> cats @ [(category, [e])]
      | Some es \<Rightarrow> AList.update category (es @ [e]) cats)"

text \<open>The loop over \<open>md_files\<close>. The state is the dictionary \<open>categories\<close> and the lines
  printed to \<open>sys.stderr\<close>.\<close>

fun collect ::
  "unicode \<Rightarrow> (str \<rightharpoonup> str) \<Rightarrow> str list \<Rightarrow> categories \<times> str list \<Rightarrow>
     error + categories \<times> str list" where
  "collect U fs [] st = Inr st"
| "collect U fs (name # names) (cats, err) =
     (if name \<in> EXCLUDED_FILES then collect U fs names (cats, err)
      else
        (case fs name of
           None \<Rightarrow> Inl FileNotFoundError
         | Some content \<Rightarrow>
            (case parse_front_matter U content of
               None \<Rightarrow> collect U fs names (cats, err @ [no_front_matter_warning name])
             | Some fm \<Rightarrow>
                (if \<not> (truthy (fm (asc ''title'')) \<and> truthy (fm (asc ''category''))
                        \<and> truthy (fm (asc ''description'')))
                 then collect U fs names (cats, err @ [missing_fields_warning name])
                 else collect U fs names
                   (setdefault_append (the (fm (asc ''category'')))
                      \<lparr>title = the (fm (asc ''title'')),
                       description = the (fm (asc ''description'')),
                       filename = name\<rparr> cats, err)))))"

text \<open>\<open>entries.sort(key=lambda e: e["title"].lower())\<close> for each list of the dictionary.
  The sort of a Python list is stable, as \<^const>\<open>sort_key\<close> is.\<close>

definition sort_entries :: "unicode \<Rightarrow> categories \<Rightarrow> categories" where
  "sort_entries U cats = map (\<lambda>(c, es). (c, sort_key (\<lambda>e. lower U (title e)) es)) cats"

definition ordered_categories :: "categories \<Rightarrow> str list" where
  "ordered_categories cats =
     filter (\<lambda>cat. map_of cats cat \<noteq> None) CATEGORY_ORDER
     @ sorted_list_of_set (set (map fst cats) - set CATEGORY_ORDER)"

text \<open>\<open>sum(len(categories[c]) for c in ordered_categories)\<close>\<close>

fun total_plans :: "categories \<Rightarrow> str list \<Rightarrow> error + nat" where
  "total_plans cats [] = Inr 0"
| "total_plans cats (c # cs) =
     (case map_of cats c of
        None \<Rightarrow> Inl KeyError
      | Some es \<Rightarrow>
         (case total_plans cats cs of
            Inl e \<Rightarrow> Inl e
          | Inr n \<Rightarrow> Inr (length es + n)))"

text \<open>The em dash and the en dash of the fixed lines.\<close>

definition EM_DASH :: str where
  "EM_DASH = [0x2014]"

definition EN_DASH :: str where
  "EN_DASH = [0x2013]"

definition bullet :: "entry \<Rightarrow> str" where
  "bullet e =
     asc ''- ['' @ title e @ asc '']('' @ filename e @ asc '')''
     @ asc '' '' @ EM_DASH @ asc '' '' @ description e"

text \<open>The lines of the loop over \<open>ordered_categories\<close>.\<close>

fun category_lines :: "categories \<Rightarrow> str list \<Rightarrow> error + str list" where
  "category_lines cats [] = Inr []"
| "category_lines cats (c # cs) =
     (case map_of cats c of
        None \<Rightarrow> Inl KeyError
      | Some es \<Rightarrow>
         (case category_lines cats cs of
            Inl e \<Rightarrow> Inl e
          | Inr ls \<Rightarrow> Inr ([[], asc ''### '' @ c, []] @ map bullet es @ ls)))"

definition overview :: "nat \<Rightarrow> str" where
  "overview total_n =
     asc ''This repository contains '' @ str_nat total_n
     @ asc '' self-paced learning plans generated with''
     @ asc '' Claude. Each plan follows a phased, project-based format designed for''
     @ asc '' working engineers '' @ EM_DASH @ asc '' typically 12'' @ EN_DASH
     @ asc ''16 weeks of focused study with curated''
     @ asc '' resources, hands-on milestones, and progressive complexity. Topics range''
     @ asc '' from Spring Boot internals to Kubernetes, Go, and distributed data systems.''"

definition head_lines :: "nat \<Rightarrow> str list" where
  "head_lines total_n =
     [asc ''# Claude Learning Plans'',
      [],
      asc ''Structured, multi-week learning curricula for senior engineers who want''
        @ asc '' deep mastery of backend, infrastructure, and systems topics.'',
      [],
      asc ''## Overview'',
      [],
      overview total_n,
      [],
      asc ''## Plans by Category'']"

definition closing_paragraph :: str where
  "closing_paragraph =
     asc ''Pick a plan that matches your current learning goal, work through the''
     @ asc '' phases at your own pace, and use the milestones to gauge progress.''"

definition tail_lines :: "str list" where
  "tail_lines =
     [[],
      asc ''## How to Use These Plans'',
      [],
      asc ''Each plan is a standalone Markdown file structured around:'',
      [],
      asc ''1. **Phases** '' @ EM_DASH
        @ asc '' Progressive stages from foundations to advanced topics,''
        @ asc '' typically spanning 12'' @ EN_DASH @ asc ''16 weeks.'',
      asc ''2. **Milestones** '' @ EM_DASH
        @ asc '' Concrete projects and exercises at each phase to''
        @ asc '' validate understanding.'',
      asc ''3. **Curated Resources** '' @ EM_DASH
        @ asc '' Books, documentation, talks, and blog posts''
        @ asc '' selected for each topic.'',
      [],
      closing_paragraph,
      []]"

text \<open>The list \<open>lines\<close> when the file is written, and the lines printed to
  \<open>sys.stderr\<close> by then.\<close>

definition readme_lines :: "unicode \<Rightarrow> directory \<Rightarrow> error + str list \<times> str list" where
  "readme_lines U d =
     (case collect U (map_of d) (md_files d) ([], []) of
        Inl e \<Rightarrow> Inl e
      | Inr (categories, err) \<Rightarrow>
         (let cats = sort_entries U categories;
              ordered = ordered_categories cats
          in case total_plans cats ordered of
               Inl e \<Rightarrow> Inl e
             | Inr total_n \<Rightarrow>
                (case category_lines cats ordered of
                   Inl e \<Rightarrow> Inl e
                 | Inr body \<Rightarrow> Inr (head_lines total_n @ body @ tail_lines, err))))"

text \<open>\<open>generate_readme\<close>: the lines printed to \<open>sys.stderr\<close> and the directory after
  \<open>README.md\<close> has been written, or the exception that ends the run.\<close>

definition generate_readme :: "unicode \<Rightarrow> directory \<Rightarrow> error + str list \<times> directory" where
  "generate_readme U d =
     (case readme_lines U d of
        Inl e \<Rightarrow> Inl e
      | Inr (lines, err) \<Rightarrow>
          Inr (err, AList.update (asc ''README.md'') (join [LF] lines) d))"

section \<open>Notions used in the statements\<close>

text \<open>The files the loop reads: the names of \<open>md_files\<close> that are not excluded.\<close>

definition candidates :: "str list \<Rightarrow> str list" where
  "candidates names = filter (\<lambda>n. n \<notin> EXCLUDED_FILES) names"

text \<open>The category and the entry that a file yields, \<open>None\<close> when the loop skips it.\<close>

definition plan_of :: "unicode \<Rightarrow> (str \<rightharpoonup> str) \<Rightarrow> str \<Rightarrow> (str \<times> entry) option" where
  "plan_of U fs name =
     (case fs name of
        None \<Rightarrow> None
      | Some content \<Rightarrow>
         (case parse_front_matter U content of
            None \<Rightarrow> None
          | Some fm \<Rightarrow>
             if truthy (fm (asc ''title'')) \<and> truthy (fm (asc ''category''))
                \<and> truthy (fm (asc ''description''))
             then Some (the (fm (asc ''category'')),
                    \<lparr>title = the (fm (asc ''title'')),
                     description = the (fm (asc ''description'')),
                     filename = name\<rparr>)
             else None))"

text \<open>The line that the loop prints for a file it skips.\<close>

definition warning_of :: "unicode \<Rightarrow> (str \<rightharpoonup> str) \<Rightarrow> str \<Rightarrow> str" where
  "warning_of U fs name =
     (case fs name of
        None \<Rightarrow> []
      | Some content \<Rightarrow>
         (case parse_front_matter U content of
            None \<Rightarrow> no_front_matter_warning name
          | Some fm \<Rightarrow> missing_fields_warning name))"

text \<open>The categories and entries of the files that the loop does not skip, in the order of
  the files.\<close>

definition plans :: "unicode \<Rightarrow> directory \<Rightarrow> (str \<times> entry) list" where
  "plans U d = List.map_filter (plan_of U (map_of d)) (candidates (md_files d))"

text \<open>The entries of a category in the order of their insertion.\<close>

definition inserted :: "unicode \<Rightarrow> directory \<Rightarrow> str \<Rightarrow> entry list" where
  "inserted U d c = map snd (filter (\<lambda>p. fst p = c) (plans U d))"

text \<open>The dictionary \<open>categories\<close> after the loop, and the lines on \<open>sys.stderr\<close>.\<close>

definition collected :: "unicode \<Rightarrow> directory \<Rightarrow> categories" where
  "collected U d = fold (\<lambda>(c, e). setdefault_append c e) (plans U d) []"

definition stderr_lines :: "unicode \<Rightarrow> directory \<Rightarrow> str list" where
  "stderr_lines U d =
     map (warning_of U (map_of d))
       (filter (\<lambda>n. plan_of U (map_of d) n = None) (candidates (md_files d)))"

text \<open>The dictionary after its lists have been sorted.\<close>

definition groups :: "unicode \<Rightarrow> directory \<Rightarrow> categories" where
  "groups U d = sort_entries U (collected U d)"

text \<open>The lines of one category: a blank line, the heading, a blank line, the bullets.\<close>

definition section_lines :: "categories \<Rightarrow> str \<Rightarrow> str list" where
  "section_lines cats c = [[], asc ''### '' @ c, []] @ map bullet (the (map_of cats c))"

text \<open>A line of the document is a bullet when it starts as the bullets do.\<close>

definition is_bullet :: "str \<Rightarrow> bool" where
  "is_bullet l = prefix (asc ''- ['') l"

text \<open>The categories that have an entry.\<close>

definition present :: "unicode \<Rightarrow> directory \<Rightarrow> str set" where
  "present U d = fst ` set (plans U d)"

text \<open>The category names of a document: what follows \<open>###\<close> in its heading lines.\<close>

definition headings :: "str list \<Rightarrow> str list" where
  "headings ls = map (drop 4) (filter (prefix (asc ''### '')) ls)"

text \<open>The number that a string of decimal digits writes.\<close>

definition decimal :: "str \<Rightarrow> nat" where
  "decimal s = foldl (\<lambda>a c. 10 * a + nat (c - 0x30)) 0 s"

definition is_digit :: "int \<Rightarrow> bool" where
  "is_digit c = (0x30 \<le> c \<and> c \<le> 0x39)"

text \<open>The end of the pattern of the block: \<^verbatim>\<open>---\s*\n\<close>.\<close>

definition CLOSING :: "node list" where
  "CLOSING = lits (asc ''---'') @ [Star Space, One (Lit LF)]"

text \<open>A text at which a repetition of \<open>P\<close> has to end: it is empty or starts with a
  character that is not in \<open>P\<close>.\<close>

definition stops :: "('a \<Rightarrow> bool) \<Rightarrow> 'a list \<Rightarrow> bool" where
  "stops P ys = (case ys of [] \<Rightarrow> True | y # _ \<Rightarrow> \<not> P y)"

text \<open>Tables for the examples. The examples are ASCII texts, on which no table is
  consulted.\<close>

definition ascii_tables :: unicode where
  "ascii_tables = \<lparr>alnum = (\<lambda>c. False), lowered = (\<lambda>s. s)\<rparr>"

text \<open>Two files: \<open>a.md\<close> with the three fields, \<open>b.md\<close> with no front matter.\<close>

definition scenario :: directory where
  "scenario =
     [(asc ''a.md'',
       asc ''---'' @ [LF]
       @ asc ''title: '' @ [DQUOTE] @ asc ''Go Internals'' @ [DQUOTE, LF]
       @ asc ''category: '' @ [DQUOTE] @ asc ''Languages & Paradigms'' @ [DQUOTE, LF]
       @ asc ''description: '' @ [DQUOTE] @ asc ''Deep dive'' @ [DQUOTE, LF]
       @ asc ''---'' @ [LF]
       @ asc ''# Go Internals'' @ [LF]),
      (asc ''b.md'', asc ''# Notes'' @ [LF])]"


text \<open>A file of the category \<open>Fruit\<close> with the given title.\<close>

definition fruit_file :: "string \<Rightarrow> str" where
  "fruit_file t =
     asc ''---'' @ [LF]
     @ asc ''title: '' @ asc t @ [LF]
     @ asc ''category: Fruit'' @ [LF]
     @ asc ''description: a fruit'' @ [LF]
     @ asc ''---'' @ [LF]"

text \<open>Four files of one category. In the order of the files the titles are \<open>banana\<close>,
  \<open>apple\<close>, \<open>cherry\<close> and \<open>Apple\<close>; \<open>apple\<close> and \<open>Apple\<close> have the same key.\<close>

definition fruit :: directory where
  "fruit =
     [(asc ''1.md'', fruit_file ''banana''),
      (asc ''2.md'', fruit_file ''apple''),
      (asc ''3.md'', fruit_file ''cherry''),
      (asc ''4.md'', fruit_file ''Apple'')]"

definition fruit_bullet :: "string \<Rightarrow> string \<Rightarrow> str" where
  "fruit_bullet t f = asc ''- ['' @ asc t @ asc '']('' @ asc f @ asc '') '' @ [0x2014] @ asc '' a fruit''"

text \<open>A content whose two delimiter lines have a space after the hyphens.\<close>

definition padded_delimiters :: str where
  "padded_delimiters = asc ''--- '' @ [LF] @ asc ''title: Notes'' @ [LF] @ asc ''--- '' @ [LF]"

text \<open>A line whose double-quoted value has spaces inside the quotes.\<close>

definition padded_title :: str where
  "padded_title = asc ''title: '' @ [DQUOTE] @ asc ''  Go  '' @ [DQUOTE]"

text \<open>A file whose three fields are empty quoted strings.\<close>

definition empty_quoted :: directory where
  "empty_quoted =
     [(asc ''quoted.md'',
       asc ''---'' @ [LF]
       @ asc ''title: '' @ [DQUOTE, DQUOTE, LF]
       @ asc ''category: '' @ [DQUOTE, DQUOTE, LF]
       @ asc ''description: '' @ [DQUOTE, DQUOTE, LF]
       @ asc ''---'' @ [LF])]"

section \<open>The matcher and the patterns\<close>

lemma run_lits:
  "run U (lits s @ p) t os gs = (if prefix s t then run U p (drop (length s) t) os gs else None)"
proof (induction s arbitrary: t)
  case Nil
  then show ?case by (simp add: lits_def)
next
  case (Cons c s)
  then have IH: "\<And>t. run U (lits s @ p) t os gs = (if prefix s t then run U p (drop (length s) t) os gs else None)"
    by simp
  show ?case
  proof (cases t)
    case Nil
    then show ?thesis by (simp add: lits_def)
  next
    case (Cons d t')
    then show ?thesis using IH [of t'] by (auto simp: lits_def)
  qed
qed

lemma star_SomeD:
  "run U (Star a # p) s os gs = Some r \<Longrightarrow>
   \<exists>w t. s = w @ t \<and> list_all (accepts U a) w \<and> run U p t os gs = Some r"
proof (induction s)
  case Nil
  then show ?case by simp
next
  case (Cons c s)
  show ?case
  proof (cases "accepts U a c \<and> run U (Star a # p) s os gs \<noteq> None")
    case True
    then have "run U (Star a # p) s os gs = Some r" using Cons.prems by auto
    then obtain w t where "s = w @ t" "list_all (accepts U a) w" "run U p t os gs = Some r"
      using Cons.IH by blast
    then have "c # s = (c # w) @ t \<and> list_all (accepts U a) (c # w) \<and> run U p t os gs = Some r"
      using True by simp
    then show ?thesis by blast
  next
    case False
    then have "run U p (c # s) os gs = Some r" using Cons.prems by (auto split: if_splits)
    then have "c # s = [] @ (c # s) \<and> list_all (accepts U a) [] \<and> run U p (c # s) os gs = Some r"
      by simp
    then show ?thesis by blast
  qed
qed

lemma star_SomeI:
  "list_all (accepts U a) w \<Longrightarrow> run U p t os gs = Some r \<Longrightarrow>
   \<exists>r'. run U (Star a # p) (w @ t) os gs = Some r'"
proof (induction w)
  case Nil
  then show ?case by (cases t) (auto split: option.splits)
next
  case (Cons c w)
  then show ?case by (auto split: option.splits)
qed

lemma star_commit:
  "list_all (accepts U a) w \<Longrightarrow> run U p t os gs = Some r \<Longrightarrow> (case t of [] \<Rightarrow> True | c # _ \<Rightarrow> \<not> accepts U a c) \<Longrightarrow>
   run U (Star a # p) (w @ t) os gs = Some r"
proof (induction w)
  case Nil
  then show ?case by (cases t) auto
next
  case (Cons c w)
  then show ?case by auto
qed

lemma star_last:
  "list_all (accepts U a) w \<Longrightarrow> accepts U a c \<Longrightarrow> run U p [c] os gs = Some r \<Longrightarrow> run U p [] os gs = None \<Longrightarrow>
   run U (Star a # p) (w @ [c]) os gs = Some r"
proof (induction w)
  case Nil
  then show ?case by simp
next
  case (Cons x w)
  then show ?case by simp
qed

lemma plus_SomeD:
  "run U (Plus a # p) s os gs = Some r \<Longrightarrow>
   \<exists>c w t. s = c # w @ t \<and> accepts U a c \<and> list_all (accepts U a) w \<and> run U p t os gs = Some r"
proof (cases s)
  case Nil
  then show "run U (Plus a # p) s os gs = Some r \<Longrightarrow> ?thesis" by simp
next
  case (Cons c s')
  assume "run U (Plus a # p) s os gs = Some r"
  then have "accepts U a c" "run U (Star a # p) s' os gs = Some r"
    using Cons by (auto split: if_splits)
  then obtain w t where "s' = w @ t" "list_all (accepts U a) w" "run U p t os gs = Some r"
    using star_SomeD [of U a p s' os gs r] by blast
  then have "s = c # w @ t \<and> accepts U a c \<and> list_all (accepts U a) w \<and> run U p t os gs = Some r"
    using Cons \<open>accepts U a c\<close> by simp
  then show ?thesis by blast
qed

lemma lazy_SomeD:
  "run U (LazyStar a # p) s os gs = Some r \<Longrightarrow>
   \<exists>w t. s = w @ t \<and> list_all (accepts U a) w \<and> run U p t os gs = Some r"
proof (induction s)
  case Nil
  then show ?case by simp
next
  case (Cons c s)
  show ?case
  proof (cases "run U p (c # s) os gs")
    case None
    then have "accepts U a c" "run U (LazyStar a # p) s os gs = Some r"
      using Cons.prems by (auto split: if_splits)
    then obtain w t where "s = w @ t" "list_all (accepts U a) w" "run U p t os gs = Some r"
      using Cons.IH by blast
    then have "c # s = (c # w) @ t \<and> list_all (accepts U a) (c # w) \<and> run U p t os gs = Some r"
      using \<open>accepts U a c\<close> by simp
    then show ?thesis by blast
  next
    case (Some r')
    then have "run U p (c # s) os gs = Some r" using Cons.prems by simp
    then have "c # s = [] @ (c # s) \<and> list_all (accepts U a) [] \<and> run U p (c # s) os gs = Some r"
      by simp
    then show ?thesis by blast
  qed
qed

lemma lazy_SomeI:
  "list_all (accepts U a) w \<Longrightarrow> run U p t os gs = Some r \<Longrightarrow>
   \<exists>r'. run U (LazyStar a # p) (w @ t) os gs = Some r'"
proof (induction w)
  case Nil
  then show ?case by (cases t) (auto split: option.splits)
next
  case (Cons c w)
  then show ?case by (auto split: option.splits)
qed

lemma run_one_lf:
  "run U [One (Lit LF)] t os gs = Some r \<longleftrightarrow> r = gs \<and> (\<exists>rest. t = LF # rest)"
  by (cases t) auto

lemma closing_SomeD:
  assumes "run U CLOSING s os gs = Some r"
  shows "r = gs \<and> (\<exists>w rest. s = asc ''---'' @ w @ LF # rest \<and> list_all is_space w)"
proof -
  from assms have p: "prefix (asc ''---'') s"
    and r: "run U [Star Space, One (Lit LF)] (drop 3 s) os gs = Some r"
    unfolding CLOSING_def run_lits by (simp_all add: numeral_3_eq_3 split: if_splits)
  from star_SomeD [OF r] obtain w t where
    wt: "drop 3 s = w @ t" "list_all (accepts U Space) w" "run U [One (Lit LF)] t os gs = Some r"
    by blast
  from wt(3) obtain rest where "r = gs" "t = LF # rest" unfolding run_one_lf by blast
  moreover from p have "s = asc ''---'' @ drop 3 s" by (auto simp: prefix_def)
  moreover have "list_all is_space w" using wt(2) by (simp add: list_all_iff)
  ultimately show ?thesis using wt(1) by metis
qed

lemma closing_SomeI:
  assumes "list_all is_space w"
  shows "run U CLOSING (asc ''---'' @ w @ LF # rest) os gs = Some gs"
proof -
  have "list_all (accepts U Space) w" using assms by (simp add: list_all_iff)
  moreover have "run U [One (Lit LF)] (LF # rest) os gs = Some gs" by simp
  ultimately obtain r' where r': "run U [Star Space, One (Lit LF)] (w @ LF # rest) os gs = Some r'"
    using star_SomeI by blast
  have "run U CLOSING (asc ''---'' @ w @ LF # rest) os gs = Some r'"
    unfolding CLOSING_def run_lits using r' by simp
  with closing_SomeD show ?thesis by blast
qed

lemma FRONT_MATTER_eq:
  "FRONT_MATTER = lits (asc ''---'') @ Star Space # One (Lit LF) # GOpen # LazyStar DotAll
     # One (Lit LF) # GClose # CLOSING"
  by (simp add: FRONT_MATTER_def CLOSING_def)

lemma front_matter_SomeD:
  assumes "re_match U FRONT_MATTER content = Some r"
  shows "\<exists>w1 body w2 rest. content = asc ''---'' @ w1 @ [LF] @ body @ [LF] @ asc ''---'' @ w2 @ [LF] @ rest
           \<and> list_all is_space w1 \<and> list_all is_space w2 \<and> r = [body @ [LF]]"
proof -
  let ?p1 = "One (Lit LF) # GOpen # LazyStar DotAll # One (Lit LF) # GClose # CLOSING"
  from assms have p: "prefix (asc ''---'') content"
    and r: "run U (Star Space # ?p1) (drop 3 content) [] [] = Some r"
    unfolding re_match_def FRONT_MATTER_eq run_lits by (simp_all add: numeral_3_eq_3 split: if_splits)
  from star_SomeD [OF r] obtain w1 t1 where
    1: "drop 3 content = w1 @ t1" "list_all (accepts U Space) w1" "run U ?p1 t1 [] [] = Some r"
    by blast
  from 1(3) obtain t2 where
    2: "t1 = LF # t2" "run U (LazyStar DotAll # One (Lit LF) # GClose # CLOSING) t2 [t2] [] = Some r"
    by (cases t1) (auto split: if_splits)
  from lazy_SomeD [OF 2(2)] obtain body t3 where
    3: "t2 = body @ t3" "run U (One (Lit LF) # GClose # CLOSING) t3 [t2] [] = Some r"
    by blast
  from 3(2) obtain t4 where
    4: "t3 = LF # t4" "run U CLOSING t4 [] [take (length t2 - length t4) t2] = Some r"
    by (cases t3) (auto split: if_splits)
  from closing_SomeD [OF 4(2)] obtain w2 rest where
    5: "r = [take (length t2 - length t4) t2]" "t4 = asc ''---'' @ w2 @ LF # rest" "list_all is_space w2"
    by blast
  have "take (length t2 - length t4) t2 = body @ [LF]"
    using 3(1) 4(1) by simp
  moreover from p have "content = asc ''---'' @ drop 3 content" by (auto simp: prefix_def)
  moreover have "list_all is_space w1" using 1(2) by (simp add: list_all_iff)
  ultimately have "content = asc ''---'' @ w1 @ [LF] @ body @ [LF] @ asc ''---'' @ w2 @ [LF] @ rest
           \<and> list_all is_space w1 \<and> list_all is_space w2 \<and> r = [body @ [LF]]"
    using 1(1) 2(1) 3(1) 4(1) 5 by simp
  then show ?thesis by blast
qed

lemma front_matter_SomeI:
  assumes "list_all is_space w1" "list_all is_space w2"
  shows "\<exists>r. re_match U FRONT_MATTER
            (asc ''---'' @ w1 @ [LF] @ body @ [LF] @ asc ''---'' @ w2 @ [LF] @ rest) = Some r"
proof -
  let ?t4 = "asc ''---'' @ w2 @ LF # rest"
  let ?t2 = "body @ LF # ?t4"
  let ?p3 = "One (Lit LF) # GClose # CLOSING"
  have "run U ?p3 (LF # ?t4) [?t2] [] = Some [take (length ?t2 - length ?t4) ?t2]"
    using closing_SomeI [OF assms(2)] by simp
  moreover have "list_all (accepts U DotAll) body" by (simp add: list_all_iff)
  ultimately obtain r where "run U (LazyStar DotAll # ?p3) ?t2 [?t2] [] = Some r"
    using lazy_SomeI by blast
  then have "run U (One (Lit LF) # GOpen # LazyStar DotAll # ?p3) (LF # ?t2) [] [] = Some r"
    by simp
  moreover have "list_all (accepts U Space) w1" using assms(1) by (simp add: list_all_iff)
  ultimately obtain r' where
    "run U (Star Space # One (Lit LF) # GOpen # LazyStar DotAll # ?p3) (w1 @ LF # ?t2) [] [] = Some r'"
    using star_SomeI by blast
  then have "re_match U FRONT_MATTER (asc ''---'' @ w1 @ LF # ?t2) = Some r'"
    unfolding re_match_def FRONT_MATTER_eq run_lits by simp
  then show ?thesis by auto
qed

lemma is_space_simps:
  "is_space LF" "\<not> is_space COLON" "\<not> is_space DQUOTE" "\<not> is_space SQUOTE"
  by (simp_all add: is_space_def WHITESPACE_def)

lemma colon_not_word: "\<not> is_word U COLON"
  by (simp add: is_word_def)

lemma linebreak_space: "is_linebreak c \<Longrightarrow> is_space c"
  by (auto simp: is_linebreak_def is_space_def LINE_BOUNDARIES_def WHITESPACE_def)

lemma accepts_Word: "accepts U Word = is_word U"
  by (rule ext) simp

lemma accepts_Space: "accepts U Space = is_space"
  by (rule ext) simp

lemmas accepts_eq = accepts_Word accepts_Space

lemma stops_simps [simp]: "stops P []" "stops P (y # ys) = (\<not> P y)"
  by (simp_all add: stops_def)

lemma takeWhile_stops:
  "list_all P xs \<Longrightarrow> stops P ys \<Longrightarrow> takeWhile P (xs @ ys) = xs \<and> dropWhile P (xs @ ys) = ys"
proof (induction xs)
  case Nil
  then show ?case by (cases ys) simp_all
next
  case (Cons x xs)
  then show ?case by simp
qed

lemma split_unique:
  assumes "list_all P xs" "stops P ys" "list_all P xs'" "stops P ys'" "xs @ ys = xs' @ ys'"
  shows "xs = xs' \<and> ys = ys'"
proof -
  have "takeWhile P (xs @ ys) = xs" "dropWhile P (xs @ ys) = ys"
    using takeWhile_stops [OF assms(1,2)] by blast+
  moreover have "takeWhile P (xs' @ ys') = xs'" "dropWhile P (xs' @ ys') = ys'"
    using takeWhile_stops [OF assms(3,4)] by blast+
  ultimately show ?thesis unfolding assms(5) by blast
qed

lemma list_all_conj: "list_all (\<lambda>c. P c \<and> Q c) xs \<longleftrightarrow> list_all P xs \<and> list_all Q xs"
  by (induction xs) auto

lemma stops_word_sep:
  "list_all (\<lambda>c. is_space c \<and> \<not> is_word U c) w \<Longrightarrow> stops (is_word U) (w @ COLON # u)"
  by (cases w) (simp_all add: colon_not_word)

lemma stops_space_sep: "stops is_space (COLON # u)"
  by (simp add: is_space_simps)

lemma star_commit':
  "list_all (accepts U a) w \<Longrightarrow> stops (accepts U a) t \<Longrightarrow> run U p t os gs = Some r \<Longrightarrow>
   run U (Star a # p) (w @ t) os gs = Some r"
  using star_commit [of U a w p t os gs r] by (simp add: stops_def)

lemma KEY_SomeD:
  assumes "run U (KEY @ q) line [] [] = Some r"
  shows "\<exists>key w1 w2 t. line = key @ w1 @ COLON # w2 @ t \<and> key \<noteq> [] \<and> list_all (is_word U) key
           \<and> list_all is_space w1 \<and> list_all is_space w2 \<and> run U q t [] [key] = Some r"
proof -
  let ?p2 = "Star Space # One (Lit COLON) # Star Space # q"
  from assms have "run U (Plus Word # GClose # ?p2) line [line] [] = Some r"
    by (simp add: KEY_def)
  from plus_SomeD [OF this] obtain c k t1 where
    1: "line = c # k @ t1" "accepts U Word c" "list_all (accepts U Word) k"
       "run U (GClose # ?p2) t1 [line] [] = Some r"
    by blast
  have g: "take (length line - length t1) line = c # k" using 1(1) by simp
  from 1(4) have "run U ?p2 t1 [] [c # k] = Some r" by (simp add: g)
  from star_SomeD [OF this] obtain w1 t2 where
    2: "t1 = w1 @ t2" "list_all (accepts U Space) w1"
       "run U (One (Lit COLON) # Star Space # q) t2 [] [c # k] = Some r"
    by blast
  from 2(3) obtain t3 where
    3: "t2 = COLON # t3" "run U (Star Space # q) t3 [] [c # k] = Some r"
    by (cases t2) (auto split: if_splits)
  from star_SomeD [OF 3(2)] obtain w2 t where
    4: "t3 = w2 @ t" "list_all (accepts U Space) w2" "run U q t [] [c # k] = Some r"
    by blast
  have "line = (c # k) @ w1 @ COLON # w2 @ t \<and> c # k \<noteq> [] \<and> list_all (is_word U) (c # k)
           \<and> list_all is_space w1 \<and> list_all is_space w2 \<and> run U q t [] [c # k] = Some r"
    using 1 2 3 4 by (simp add: accepts_eq)
  then show ?thesis by blast
qed

lemma KEY_SomeI:
  assumes "key \<noteq> []" "list_all (\<lambda>c. is_word U c \<and> \<not> is_space c) key"
    and "list_all (\<lambda>c. is_space c \<and> \<not> is_word U c) w1" "list_all is_space w2"
    and "stops is_space t" and "run U q t [] [key] = Some r"
  shows "run U (KEY @ q) (key @ w1 @ COLON # w2 @ t) [] [] = Some r"
proof -
  let ?line = "key @ w1 @ COLON # w2 @ t"
  let ?p2 = "Star Space # One (Lit COLON) # Star Space # q"
  obtain c k where key: "key = c # k" using assms(1) by (cases key) auto
  have s: "list_all (accepts U Space) w1" "list_all (accepts U Space) w2"
    "list_all (accepts U Word) k" "accepts U Word c"
    using assms(2,3,4) key by (simp_all add: accepts_eq list_all_conj)
  have "stops (accepts U Space) t" using assms(5) by (simp add: accepts_eq)
  from star_commit' [OF s(2) this assms(6)]
  have "run U (Star Space # q) (w2 @ t) [] [key] = Some r" .
  then have "run U (One (Lit COLON) # Star Space # q) (COLON # w2 @ t) [] [key] = Some r"
    by simp
  moreover have "stops (accepts U Space) (COLON # w2 @ t)"
    by (simp add: is_space_simps)
  ultimately have "run U ?p2 (w1 @ COLON # w2 @ t) [] [key] = Some r"
    using star_commit' [OF s(1)] by blast
  moreover have "take (length ?line - length (w1 @ COLON # w2 @ t)) ?line = key" by simp
  ultimately have "run U (GClose # ?p2) (w1 @ COLON # w2 @ t) [?line] [] = Some r"
    by simp
  moreover have "stops (accepts U Word) (w1 @ COLON # w2 @ t)"
    using stops_word_sep [OF assms(3)] by (simp add: accepts_eq)
  ultimately have "run U (Star Word # GClose # ?p2) (k @ w1 @ COLON # w2 @ t) [?line] [] = Some r"
    using star_commit' [OF s(3)] by blast
  then show ?thesis using s(4) by (simp add: KEY_def key)
qed

lemma KEY_None:
  assumes "key \<noteq> []" "list_all (\<lambda>c. is_word U c \<and> \<not> is_space c) key"
    and "list_all (\<lambda>c. is_space c \<and> \<not> is_word U c) w1" "list_all is_space w2"
    and "stops is_space t" and "\<not> is_space x"
    and "run U (One (Lit x) # q) t [] [key] = None"
  shows "re_match U (KEY @ One (Lit x) # q) (key @ w1 @ COLON # w2 @ t) = None"
proof (rule ccontr)
  let ?R = "w1 @ COLON # w2 @ t"
  assume "re_match U (KEY @ One (Lit x) # q) (key @ ?R) \<noteq> None"
  then obtain r where "run U (KEY @ One (Lit x) # q) (key @ ?R) [] [] = Some r"
    by (auto simp: re_match_def)
  from KEY_SomeD [OF this] obtain key' w1' w2' t' where
    d: "key @ ?R = key' @ w1' @ COLON # w2' @ t'"
       "list_all (is_word U) key'" "list_all is_space w1'" "list_all is_space w2'"
       "run U (One (Lit x) # q) t' [] [key'] = Some r"
    by blast
  let ?R' = "w1' @ COLON # w2' @ t'"
  have kw: "list_all (is_word U) key" and ks: "list_all (\<lambda>c. \<not> is_space c) key"
    using assms(2) by (simp_all add: list_all_conj)
  have w1s: "list_all is_space w1" using assms(3) by (simp add: list_all_conj)
  have "takeWhile (is_word U) (key @ ?R) = key"
    using takeWhile_stops [OF kw stops_word_sep [OF assms(3)]] by blast
  moreover have "takeWhile (is_word U) (key' @ ?R') = key' @ takeWhile (is_word U) ?R'"
    using d(2) by (simp add: list_all_iff takeWhile_append2)
  ultimately have k: "key = key' @ takeWhile (is_word U) ?R'" using d(1) by simp
  have "stops (is_word U) ?R'"
  proof (cases w1')
    case Nil
    then show ?thesis by (simp add: colon_not_word)
  next
    case (Cons s w)
    have "\<not> is_word U s"
    proof
      assume "is_word U s"
      then have "s \<in> set (takeWhile (is_word U) ?R')" using Cons by simp
      then have "s \<in> set key" using k by (metis Un_iff set_append)
      then have "\<not> is_space s" using ks by (simp add: list_all_iff)
      moreover have "is_space s" using d(3) Cons by simp
      ultimately show False by blast
    qed
    then show ?thesis using Cons by simp
  qed
  from split_unique [OF kw stops_word_sep [OF assms(3)] d(2) this d(1)]
  have e1: "?R = ?R'" by simp
  from split_unique [OF w1s stops_space_sep d(3) stops_space_sep e1]
  have e2: "w2 @ t = w2' @ t'" by simp
  from d(5) obtain t'' where "t' = x # t''" by (cases t') (auto split: if_splits)
  then have "stops is_space t'" using assms(6) by simp
  from split_unique [OF assms(4,5) d(4) this e2] have "t = t'" by simp
  moreover have "key = key'"
    using split_unique [OF kw stops_word_sep [OF assms(3)] d(2) \<open>stops (is_word U) ?R'\<close> d(1)]
    by simp
  ultimately show False using d(5) assms(7) by simp
qed

lemma quoted_tail:
  assumes "v \<noteq> []" "LF \<notin> set v" "x \<noteq> LF"
  shows "run U [One (Lit x), GOpen, Plus Dot, GClose, One (Lit x), Eos] (x # v @ [x]) [] [key]
           = Some [key, v]"
proof -
  let ?p = "[GClose, One (Lit x), Eos]"
  obtain c v' where v: "v = c # v'" using assms(1) by (cases v) auto
  have a: "list_all (accepts U Dot) v'" "accepts U Dot x" "accepts U Dot c"
    using assms(2,3) v by (auto simp: list_all_iff)
  have "run U ?p [x] [v @ [x]] [key] = Some [key, v]" by simp
  moreover have "run U ?p [] [v @ [x]] [key] = None" by simp
  ultimately have "run U (Star Dot # ?p) (v' @ [x]) [v @ [x]] [key] = Some [key, v]"
    using star_last [OF a(1,2)] by blast
  then show ?thesis using a(3) by (simp add: v)
qed

lemma bare_tail:
  assumes "v \<noteq> []" "LF \<notin> set v"
  shows "run U [GOpen, Plus Dot, GClose, Eos] v [] [key] = Some [key, v]"
proof -
  obtain c v' where v: "v = c # v'" using assms(1) by (cases v) auto
  have a: "list_all (accepts U Dot) v'" "accepts U Dot c"
    using assms(2) v by (auto simp: list_all_iff)
  have "run U [GClose, Eos] [] [v] [key] = Some [key, v]" by simp
  moreover have "stops (accepts U Dot) []" by simp
  ultimately have "run U (Star Dot # [GClose, Eos]) (v' @ []) [v] [key] = Some [key, v]"
    using star_commit' [OF a(1)] by blast
  then show ?thesis using a(2) by (simp add: v)
qed

lemma store_line_match:
  "match_line U l = Some [k, v] \<Longrightarrow> store_line U l fm = fm(k \<mapsto> strip v)"
  by (simp add: store_line_def)

lemma DOUBLE_QUOTED_eq:
  "DOUBLE_QUOTED = KEY @ One (Lit DQUOTE) # [GOpen, Plus Dot, GClose, One (Lit DQUOTE), Eos]"
  by (simp add: DOUBLE_QUOTED_def)

lemma SINGLE_QUOTED_eq:
  "SINGLE_QUOTED = KEY @ One (Lit SQUOTE) # [GOpen, Plus Dot, GClose, One (Lit SQUOTE), Eos]"
  by (simp add: SINGLE_QUOTED_def)

lemma double_quoted_line:
  assumes "key \<noteq> []" "list_all (\<lambda>c. is_word U c \<and> \<not> is_space c) key"
    and "list_all (\<lambda>c. is_space c \<and> \<not> is_word U c) w1" "list_all is_space w2"
    and "v \<noteq> []" "LF \<notin> set v"
  shows "match_line U (key @ w1 @ COLON # w2 @ DQUOTE # v @ [DQUOTE]) = Some [key, v]"
proof -
  have "stops is_space (DQUOTE # v @ [DQUOTE])" by (simp add: is_space_simps)
  from KEY_SomeI [OF assms(1-4) this quoted_tail [OF assms(5,6)]]
  have "re_match U DOUBLE_QUOTED (key @ w1 @ COLON # w2 @ DQUOTE # v @ [DQUOTE]) = Some [key, v]"
    by (simp add: re_match_def DOUBLE_QUOTED_eq)
  then show ?thesis by (simp add: match_line_def)
qed

lemma single_quoted_line:
  assumes "key \<noteq> []" "list_all (\<lambda>c. is_word U c \<and> \<not> is_space c) key"
    and "list_all (\<lambda>c. is_space c \<and> \<not> is_word U c) w1" "list_all is_space w2"
    and "v \<noteq> []" "LF \<notin> set v"
  shows "match_line U (key @ w1 @ COLON # w2 @ SQUOTE # v @ [SQUOTE]) = Some [key, v]"
proof -
  let ?line = "key @ w1 @ COLON # w2 @ SQUOTE # v @ [SQUOTE]"
  have st: "stops is_space (SQUOTE # v @ [SQUOTE])" by (simp add: is_space_simps)
  have "re_match U DOUBLE_QUOTED ?line = None"
    unfolding DOUBLE_QUOTED_eq
    by (rule KEY_None [OF assms(1-4) st]) (simp_all add: is_space_simps)
  moreover from KEY_SomeI [OF assms(1-4) st quoted_tail [OF assms(5,6)]]
  have "re_match U SINGLE_QUOTED ?line = Some [key, v]"
    by (simp add: re_match_def SINGLE_QUOTED_eq)
  ultimately show ?thesis by (simp add: match_line_def)
qed

lemma bare_line:
  assumes "key \<noteq> []" "list_all (\<lambda>c. is_word U c \<and> \<not> is_space c) key"
    and "list_all (\<lambda>c. is_space c \<and> \<not> is_word U c) w1" "list_all is_space w2"
    and "v \<noteq> []" "LF \<notin> set v" "\<not> is_space (hd v)" "hd v \<noteq> DQUOTE" "hd v \<noteq> SQUOTE"
  shows "match_line U (key @ w1 @ COLON # w2 @ v) = Some [key, v]"
proof -
  let ?line = "key @ w1 @ COLON # w2 @ v"
  obtain c v' where v: "v = c # v'" using assms(5) by (cases v) auto
  have st: "stops is_space v" using assms(7) v by simp
  have "re_match U DOUBLE_QUOTED ?line = None"
    unfolding DOUBLE_QUOTED_eq
    by (rule KEY_None [OF assms(1-4) st]) (use assms(8) v in \<open>simp_all add: is_space_simps\<close>)
  moreover have "re_match U SINGLE_QUOTED ?line = None"
    unfolding SINGLE_QUOTED_eq
    by (rule KEY_None [OF assms(1-4) st]) (use assms(9) v in \<open>simp_all add: is_space_simps\<close>)
  moreover from KEY_SomeI [OF assms(1-4) st bare_tail [OF assms(5,6)]]
  have "re_match U BARE ?line = Some [key, v]"
    by (simp add: re_match_def BARE_def)
  ultimately show ?thesis by (simp add: match_line_def)
qed

lemma lazy_skip:
  "LF \<notin> set w \<Longrightarrow> run U (One (Lit LF) # q) t os gs = Some r \<Longrightarrow>
   run U (LazyStar DotAll # One (Lit LF) # q) (w @ t) os gs = Some r"
proof (induction w)
  case Nil
  then show ?case by (cases t) simp_all
next
  case (Cons c w)
  then show ?case by simp
qed

lemma front_matter_one_line:
  assumes "line \<noteq> []" "\<not> is_space (hd line)" "LF \<notin> set line"
  shows "re_match U FRONT_MATTER (asc ''---'' @ [LF] @ line @ [LF] @ asc ''---'' @ [LF] @ rest)
           = Some [line @ [LF]]"
proof -
  let ?t4 = "asc ''---'' @ [] @ LF # rest"
  let ?t2 = "line @ LF # ?t4"
  let ?p3 = "One (Lit LF) # GClose # CLOSING"
  let ?p1 = "One (Lit LF) # GOpen # LazyStar DotAll # ?p3"
  obtain c l where line: "line = c # l" using assms(1) by (cases line) auto
  have c: "\<not> is_space c" "c \<noteq> LF" using assms(2,3) line by auto
  have "take (length ?t2 - length ?t4) ?t2 = line @ [LF]" by simp
  then have "run U ?p3 (LF # ?t4) [?t2] [] = Some [line @ [LF]]"
    using closing_SomeI [of "[]" U rest "[]" "[line @ [LF]]"] by simp
  from lazy_skip [OF assms(3) this]
  have "run U ?p1 (LF # ?t2) [] [] = Some [line @ [LF]]" by simp
  moreover have "run U ?p1 ?t2 [] [] = None" using c by (simp add: line)
  ultimately have "run U (Star Space # ?p1) (LF # ?t2) [] [] = Some [line @ [LF]]"
    using c by (simp add: line is_space_simps)
  then show ?thesis
    unfolding re_match_def FRONT_MATTER_eq run_lits by simp
qed

lemma splitlines_from_line:
  "list_all (\<lambda>c. \<not> is_linebreak c) l \<Longrightarrow> splitlines_from cur (l @ [LF]) = [cur @ l]"
proof (induction l arbitrary: cur)
  case Nil
  then show ?case by (simp add: is_linebreak_def LINE_BOUNDARIES_def)
next
  case (Cons c l)
  obtain d s where ds: "l @ [LF] = d # s" by (cases l) auto
  have "c \<noteq> CR" using Cons.prems by (auto simp: is_linebreak_def LINE_BOUNDARIES_def)
  then have "splitlines_from cur (c # d # s) = splitlines_from (cur @ [c]) (d # s)"
    using Cons.prems by simp
  then show ?case using Cons ds by simp
qed

lemma splitlines_line:
  "list_all (\<lambda>c. \<not> is_linebreak c) l \<Longrightarrow> splitlines (l @ [LF]) = [l]"
  using splitlines_from_line [of l "[]"] by (simp add: splitlines_def)

lemma parse_one_line:
  assumes "line \<noteq> []" "\<not> is_space (hd line)" "list_all (\<lambda>c. \<not> is_linebreak c) line"
  shows "parse_front_matter U (asc ''---'' @ [LF] @ line @ [LF] @ asc ''---'' @ [LF] @ rest)
           = Some (store_line U line Map.empty)"
proof -
  have "\<not> is_linebreak c" if "c \<in> set line" for c
    using assms(3) that by (simp add: list_all_iff)
  moreover have "is_linebreak LF" by (simp add: is_linebreak_def LINE_BOUNDARIES_def)
  ultimately have "LF \<notin> set line" by blast
  from front_matter_one_line [OF assms(1,2) this]
  show ?thesis by (simp add: parse_front_matter_def splitlines_line [OF assms(3)])
qed

lemma parse_is_fold:
  assumes "parse_front_matter U content = Some fm"
  shows "\<exists>w1 body w2 rest.
           content = asc ''---'' @ w1 @ [LF] @ body @ [LF] @ asc ''---'' @ w2 @ [LF] @ rest
           \<and> list_all is_space w1 \<and> list_all is_space w2
           \<and> fm = fold (store_line U) (splitlines (body @ [LF])) Map.empty"
proof -
  from assms obtain r where r: "re_match U FRONT_MATTER content = Some r"
    by (auto simp: parse_front_matter_def split: option.splits)
  from front_matter_SomeD [OF r] obtain w1 body w2 rest where
    d: "content = asc ''---'' @ w1 @ [LF] @ body @ [LF] @ asc ''---'' @ w2 @ [LF] @ rest"
       "list_all is_space w1" "list_all is_space w2" "r = [body @ [LF]]"
    by blast
  have "fm = fold (store_line U) (splitlines (body @ [LF])) Map.empty"
    using assms r d(4) by (simp add: parse_front_matter_def)
  with d show ?thesis by blast
qed

lemma not_linebreak_simps: "\<not> is_linebreak COLON" "\<not> is_linebreak DQUOTE" "\<not> is_linebreak SQUOTE"
  by (simp_all add: is_linebreak_def LINE_BOUNDARIES_def)

lemma decimal_str_nat: "decimal (str_nat n) = n"
proof (induction n rule: str_nat.induct)
  case (1 n)
  show ?case
  proof (cases "n < 10")
    case True
    then show ?thesis by (subst str_nat.simps) (simp add: decimal_def)
  next
    case False
    then have "decimal (str_nat (n div 10)) = n div 10" using 1 by simp
    then show ?thesis using False
      by (subst str_nat.simps) (simp add: decimal_def)
  qed
qed

lemma digits_str_nat: "list_all is_digit (str_nat n)"
proof (induction n rule: str_nat.induct)
  case (1 n)
  show ?case
  proof (cases "n < 10")
    case True
    then show ?thesis by (subst str_nat.simps) (simp add: is_digit_def)
  next
    case False
    then have "list_all is_digit (str_nat (n div 10))" using 1 by simp
    moreover have "n mod 10 < 10" by simp
    ultimately show ?thesis using False
      by (subst str_nat.simps) (simp add: is_digit_def)
  qed
qed

lemma nbsp_value:
  "store_line U (asc ''title: '' @ [DQUOTE, 0xA0] @ asc ''Go'' @ [0x2003, DQUOTE]) fm
     = fm(asc ''title'' \<mapsto> asc ''Go'')"
proof -
  have h: "asc ''title'' \<noteq> []" "list_all (\<lambda>c. is_word U c \<and> \<not> is_space c) (asc ''title'')"
    "list_all (\<lambda>c. is_space c \<and> \<not> is_word U c) []" "list_all is_space (asc '' '')"
    "[0xA0] @ asc ''Go'' @ [0x2003] \<noteq> []" "LF \<notin> set ([0xA0] @ asc ''Go'' @ [0x2003])"
    by (simp_all add: is_word_def is_space_def WHITESPACE_def)
  have s: "strip ([0xA0] @ asc ''Go'' @ [0x2003]) = asc ''Go''"
    by (simp add: strip_def is_space_def WHITESPACE_def)
  from double_quoted_line [OF h] s show ?thesis
    by (simp add: store_line_def)
qed

lemma separator_lines:
  "parse_front_matter U
     (asc ''---'' @ [LF] @ asc ''a: 1'' @ [0x2028] @ asc ''b: 2'' @ [LF] @ asc ''---'' @ [LF])
     = Some [asc ''a'' \<mapsto> asc ''1'', asc ''b'' \<mapsto> asc ''2'']"
  by (simp add: parse_front_matter_def re_match_def FRONT_MATTER_def lits_def is_space_def
      WHITESPACE_def splitlines_def is_linebreak_def LINE_BOUNDARIES_def store_line_def
      match_line_def DOUBLE_QUOTED_def SINGLE_QUOTED_def BARE_def KEY_def is_word_def strip_def)

section \<open>The loop over the files\<close>

lemma map_of_setdefault_append:
  "map_of (setdefault_append c e cats) c' =
     (if c' = c then Some ((case map_of cats c of None \<Rightarrow> [] | Some es \<Rightarrow> es) @ [e])
      else map_of cats c')"
proof (cases "map_of cats c")
  case None
  then show ?thesis by (auto simp: setdefault_append_def map_add_def split: option.splits)
next
  case (Some es)
  then show ?thesis by (simp add: setdefault_append_def update_conv')
qed

lemma keys_setdefault_append:
  "fst ` set (setdefault_append c e cats) = insert c (fst ` set cats)"
proof (cases "map_of cats c")
  case None
  then show ?thesis by (auto simp: setdefault_append_def)
next
  case (Some es)
  from map_of_SomeD[OF Some] have "c \<in> fst ` set cats" by force
  with Some show ?thesis by (auto simp: setdefault_append_def dom_update)
qed

lemma collect_closed:
  "set names \<subseteq> dom fs \<Longrightarrow>
   collect U fs names (cats, err) =
     Inr (fold (\<lambda>(c, e). setdefault_append c e) (List.map_filter (plan_of U fs) (candidates names)) cats,
          err @ map (warning_of U fs) (filter (\<lambda>n. plan_of U fs n = None) (candidates names)))"
proof (induction names arbitrary: cats err)
  case Nil
  then show ?case by (simp add: candidates_def)
next
  case (Cons name names)
  then obtain content where c: "fs name = Some content" by auto
  from Cons have IH: "\<And>cats err. collect U fs names (cats, err) =
     Inr (fold (\<lambda>(c, e). setdefault_append c e) (List.map_filter (plan_of U fs) (candidates names)) cats,
          err @ map (warning_of U fs) (filter (\<lambda>n. plan_of U fs n = None) (candidates names)))"
    by simp
  show ?case
  proof (cases "name \<in> EXCLUDED_FILES")
    case True
    then show ?thesis by (simp add: IH candidates_def)
  next
    case False
    then have cand: "candidates (name # names) = name # candidates names"
      by (simp add: candidates_def)
    show ?thesis
    proof (cases "parse_front_matter U content")
      case None
      then have "plan_of U fs name = None" "warning_of U fs name = no_front_matter_warning name"
        using c by (simp_all add: plan_of_def warning_of_def)
      then show ?thesis using False c None
        by (simp add: IH cand)
    next
      case (Some fm)
      show ?thesis
      proof (cases "truthy (fm (asc ''title'')) \<and> truthy (fm (asc ''category'')) \<and> truthy (fm (asc ''description''))")
        case True
        then have "plan_of U fs name = Some (the (fm (asc ''category'')),
                    \<lparr>title = the (fm (asc ''title'')), description = the (fm (asc ''description'')),
                     filename = name\<rparr>)"
          using c Some by (simp add: plan_of_def)
        then show ?thesis using False c Some True
          by (simp add: IH cand)
      next
        case F: False
        then have "plan_of U fs name = None" "warning_of U fs name = missing_fields_warning name"
          using c Some by (auto simp add: plan_of_def warning_of_def)
        then show ?thesis using False c Some F
          by (auto simp add: IH cand)
      qed
    qed
  qed
qed

lemma md_files_set: "set (md_files d) = {n \<in> fst ` set d. is_md n}"
  by (auto simp: md_files_def)

lemma md_files_dom: "set (md_files d) \<subseteq> dom (map_of d)"
  by (auto simp: md_files_set dom_map_of_conv_image_fst)

lemma collect_md_files:
  "collect U (map_of d) (md_files d) ([], []) = Inr (collected U d, stderr_lines U d)"
  using collect_closed [OF md_files_dom, where U = U and cats = "[]" and err = "[]" and d1 = d]
  by (simp add: collected_def stderr_lines_def plans_def)

lemma keys_fold:
  "fst ` set (fold (\<lambda>(c, e). setdefault_append c e) xs cats) = fst ` set xs \<union> fst ` set cats"
proof (induction xs arbitrary: cats)
  case Nil
  then show ?case by simp
next
  case (Cons x xs)
  obtain c e where x: "x = (c, e)" by (cases x)
  show ?case
    unfolding x using Cons [of "setdefault_append c e cats"]
    by (auto simp add: keys_setdefault_append)
qed

lemma map_of_fold_add:
  "map_of (fold (\<lambda>(c, e). setdefault_append c e) xs cats) c =
     (if map snd (filter (\<lambda>p. fst p = c) xs) = [] then map_of cats c
      else Some ((case map_of cats c of None \<Rightarrow> [] | Some es \<Rightarrow> es)
                 @ map snd (filter (\<lambda>p. fst p = c) xs)))"
proof (induction xs arbitrary: cats)
  case Nil
  then show ?case by simp
next
  case (Cons x xs)
  obtain c' e where x: "x = (c', e)" by (cases x)
  show ?case
    unfolding x using Cons [of "setdefault_append c' e cats"]
    by (simp add: map_of_setdefault_append)
qed

lemma map_of_collected:
  "map_of (collected U d) c =
     (if map snd (filter (\<lambda>p. fst p = c) (plans U d)) = [] then None
      else Some (map snd (filter (\<lambda>p. fst p = c) (plans U d))))"
  unfolding collected_def by (simp add: map_of_fold_add)

lemma plan_of_filename: "plan_of U fs n = Some (c, e) \<Longrightarrow> filename e = n"
  by (auto simp: plan_of_def split: option.splits if_splits)

lemma set_map_filter: "y \<in> set (List.map_filter f xs) \<longleftrightarrow> (\<exists>x \<in> set xs. f x = Some y)"
proof (induction xs)
  case Nil
  then show ?case by (simp add: List.map_filter_simps)
next
  case (Cons x xs)
  then show ?case by (cases "f x") (auto simp: List.map_filter_simps)
qed

lemma set_plans:
  "(c, e) \<in> set (plans U d) \<longleftrightarrow>
     filename e \<in> set (candidates (md_files d)) \<and> plan_of U (map_of d) (filename e) = Some (c, e)"
  unfolding plans_def set_map_filter using plan_of_filename by blast

lemma truthy_iff: "truthy v \<longleftrightarrow> (\<exists>s. v = Some s \<and> s \<noteq> [])"
  by (cases v) (simp_all add: truthy_def)

lemma plan_of_Some_iff:
  "(\<exists>p. plan_of U fs n = Some p) \<longleftrightarrow>
     (\<exists>content fm t c ds. fs n = Some content \<and> parse_front_matter U content = Some fm
        \<and> fm (asc ''title'') = Some t \<and> t \<noteq> [] \<and> fm (asc ''category'') = Some c \<and> c \<noteq> []
        \<and> fm (asc ''description'') = Some ds \<and> ds \<noteq> [])"
proof (cases "fs n")
  case None
  then show ?thesis by (simp add: plan_of_def)
next
  case (Some content)
  show ?thesis
  proof (cases "parse_front_matter U content")
    case None
    then show ?thesis using Some by (simp add: plan_of_def)
  next
    case fm: (Some fm)
    have "(\<exists>p. plan_of U fs n = Some p) \<longleftrightarrow>
            truthy (fm (asc ''title'')) \<and> truthy (fm (asc ''category'')) \<and> truthy (fm (asc ''description''))"
      using Some fm by (simp add: plan_of_def)
    also have "\<dots> \<longleftrightarrow> (\<exists>t c ds. fm (asc ''title'') = Some t \<and> t \<noteq> [] \<and> fm (asc ''category'') = Some c \<and> c \<noteq> []
        \<and> fm (asc ''description'') = Some ds \<and> ds \<noteq> [])"
      unfolding truthy_iff by blast
    finally show ?thesis using Some fm by simp
  qed
qed

lemma candidates_md_files:
  "candidates (md_files d) = sorted_list_of_set ({n \<in> fst ` set d. is_md n} - EXCLUDED_FILES)"
proof -
  have "sorted_list_of_set (set (candidates (md_files d))) = candidates (md_files d)"
    by (rule sorted_list_of_set.idem_if_sorted_distinct)
       (simp_all add: candidates_def md_files_def sorted_filter [where f = "\<lambda>x. x", simplified])
  moreover have "set (candidates (md_files d)) = {n \<in> fst ` set d. is_md n} - EXCLUDED_FILES"
    by (auto simp: candidates_def md_files_set)
  ultimately show ?thesis by simp
qed

lemma excluded_is_md: "n \<in> EXCLUDED_FILES \<Longrightarrow> is_md n"
  by (auto simp: EXCLUDED_FILES_def is_md_def suffix_def)

lemma candidates_update:
  assumes "n \<in> EXCLUDED_FILES"
  shows "candidates (md_files (AList.update n x d)) = candidates (md_files d)"
proof -
  have "{m \<in> fst ` set (AList.update n x d). is_md m} - EXCLUDED_FILES
        = {m \<in> fst ` set d. is_md m} - EXCLUDED_FILES"
    using assms by (auto simp: dom_update)
  then show ?thesis by (simp add: candidates_md_files)
qed

lemma plan_of_update:
  "m \<noteq> n \<Longrightarrow> plan_of U (map_of (AList.update n x d)) m = plan_of U (map_of d) m"
  by (simp add: plan_of_def update_conv')

lemma warning_of_update:
  "m \<noteq> n \<Longrightarrow> warning_of U (map_of (AList.update n x d)) m = warning_of U (map_of d) m"
  by (simp add: warning_of_def update_conv')

lemma candidates_not_excluded: "m \<in> set (candidates ns) \<Longrightarrow> m \<notin> EXCLUDED_FILES"
  by (simp add: candidates_def)

lemma map_filter_agree:
  "(\<And>m. m \<in> set xs \<Longrightarrow> f m = g m) \<Longrightarrow> List.map_filter f xs = List.map_filter g xs"
proof (induction xs)
  case Nil
  then show ?case by (simp add: List.map_filter_simps)
next
  case (Cons x xs)
  then have "f x = g x" "List.map_filter f xs = List.map_filter g xs" by simp_all
  then show ?case by (simp add: List.map_filter_simps split: option.split)
qed

lemma filter_agree:
  "(\<And>m. m \<in> set xs \<Longrightarrow> P m = Q m) \<Longrightarrow> filter P xs = filter Q xs"
  by (induction xs) simp_all

section \<open>The lines of the document\<close>

lemma total_plans_ok:
  "\<forall>c \<in> set cs. map_of cats c \<noteq> None \<Longrightarrow>
   total_plans cats cs = Inr (sum_list (map (\<lambda>c. length (the (map_of cats c))) cs))"
  by (induction cs) auto

lemma category_lines_ok:
  "\<forall>c \<in> set cs. map_of cats c \<noteq> None \<Longrightarrow>
   category_lines cats cs = Inr (concat (map (section_lines cats) cs))"
  by (induction cs) (auto simp: section_lines_def)

lemma map_of_sort_entries:
  "map_of (sort_entries U cats) c = map_option (sort_key (\<lambda>e. lower U (title e))) (map_of cats c)"
  by (induction cats) (auto simp: sort_entries_def)

lemma keys_sort_entries: "map fst (sort_entries U cats) = map fst cats"
  by (induction cats) (auto simp: sort_entries_def)

lemma ordered_in_keys: "c \<in> set (ordered_categories cats) \<Longrightarrow> map_of cats c \<noteq> None"
  by (auto simp: ordered_categories_def map_of_eq_None_iff)

lemma readme_lines_closed:
  "readme_lines U d =
     Inr (head_lines (sum_list (map (\<lambda>c. length (the (map_of (groups U d) c)))
                        (ordered_categories (groups U d))))
          @ concat (map (section_lines (groups U d)) (ordered_categories (groups U d)))
          @ tail_lines,
          stderr_lines U d)"
proof -
  have ok: "\<forall>c \<in> set (ordered_categories (groups U d)). map_of (groups U d) c \<noteq> None"
    using ordered_in_keys by blast
  show ?thesis
    unfolding readme_lines_def collect_md_files
    using total_plans_ok [OF ok] category_lines_ok [OF ok]
    by (simp add: groups_def Let_def)
qed

lemma bullets_head: "filter is_bullet (head_lines n) = []"
  by (simp add: head_lines_def is_bullet_def overview_def)

lemma bullets_tail: "filter is_bullet tail_lines = []"
  by (simp add: tail_lines_def is_bullet_def closing_paragraph_def)

lemma bullets_section: "filter is_bullet (section_lines cats c) = map bullet (the (map_of cats c))"
proof -
  have "filter is_bullet (map bullet es) = map bullet es" for es
    by (induction es) (simp_all add: is_bullet_def bullet_def)
  then show ?thesis by (simp add: section_lines_def is_bullet_def)
qed

lemma bullets_sections:
  "length (filter is_bullet (concat (map (section_lines cats) cs))) =
     sum_list (map (\<lambda>c. length (the (map_of cats c))) cs)"
  by (induction cs) (simp_all add: bullets_section)

lemma join_snoc2: "xs \<noteq> [] \<Longrightarrow> join sep (xs @ [a, []]) = join sep xs @ sep @ a @ sep"
  by (induction sep xs rule: join.induct) (auto simp: neq_Nil_conv)

lemma headings_append: "headings (xs @ ys) = headings xs @ headings ys"
  by (simp add: headings_def)

lemma headings_head: "headings (head_lines n) = []"
  by (simp add: headings_def head_lines_def overview_def)

lemma headings_tail: "headings tail_lines = []"
  by (simp add: headings_def tail_lines_def closing_paragraph_def)

lemma headings_section: "headings (section_lines cats c) = [c]"
proof -
  have "filter (prefix (asc ''### '')) (map bullet es) = []" for es
    by (induction es) (simp_all add: bullet_def)
  then show ?thesis by (simp add: section_lines_def headings_def)
qed

lemma headings_sections: "headings (concat (map (section_lines cats) cs)) = cs"
proof (induction cs)
  case Nil
  then show ?case by (simp add: headings_def)
next
  case (Cons c cs)
  then show ?case by (simp add: headings_append headings_section)
qed

lemma keys_groups: "set (map fst (groups U d)) = present U d"
  by (simp add: groups_def keys_sort_entries collected_def keys_fold present_def)

lemma readme_lines_update:
  assumes "n \<in> EXCLUDED_FILES"
  shows "readme_lines U (AList.update n x d) = readme_lines U d"
proof -
  have ne: "m \<noteq> n" if "m \<in> set (candidates (md_files d))" for m
    using that assms candidates_not_excluded by blast
  have "List.map_filter (plan_of U (map_of (AList.update n x d))) (candidates (md_files d))
          = List.map_filter (plan_of U (map_of d)) (candidates (md_files d))"
    by (rule map_filter_agree) (simp add: ne plan_of_update)
  then have "collected U (AList.update n x d) = collected U d"
    unfolding collected_def plans_def candidates_update [OF assms] by simp
  moreover have "filter (\<lambda>m. plan_of U (map_of (AList.update n x d)) m = None) (candidates (md_files d))
          = filter (\<lambda>m. plan_of U (map_of d) m = None) (candidates (md_files d))"
    by (rule filter_agree) (simp add: ne plan_of_update)
  then have "stderr_lines U (AList.update n x d) = stderr_lines U d"
    unfolding stderr_lines_def candidates_update [OF assms]
    using ne by (simp add: warning_of_update)
  ultimately show ?thesis by (simp add: readme_lines_closed groups_def)
qed

section \<open>Properties of the generator\<close>

text \<open>
  C1. A file that the loop reads has an entry in the dictionary after the loop if and only
  if its front matter was parsed and maps \<open>title\<close>, \<open>category\<close> and \<open>description\<close> to
  non-empty strings. A file with no front matter, or with one of the three keys missing or
  mapped to the empty string, has none.
\<close>

theorem required_fields:
  assumes "name \<in> set (candidates (md_files d))"
  shows "\<exists>cats err. collect U (map_of d) (md_files d) ([], []) = Inr (cats, err)
     \<and> ((\<exists>c es e. map_of cats c = Some es \<and> e \<in> set es \<and> filename e = name)
          \<longleftrightarrow> (\<exists>content fm t c ds. map_of d name = Some content
                 \<and> parse_front_matter U content = Some fm
                 \<and> fm (asc ''title'') = Some t \<and> t \<noteq> []
                 \<and> fm (asc ''category'') = Some c \<and> c \<noteq> []
                 \<and> fm (asc ''description'') = Some ds \<and> ds \<noteq> []))"
proof -
  have "(\<exists>c es e. map_of (collected U d) c = Some es \<and> e \<in> set es \<and> filename e = name)
          \<longleftrightarrow> (\<exists>c e. (c, e) \<in> set (plans U d) \<and> filename e = name)"
  proof
    assume "\<exists>c es e. map_of (collected U d) c = Some es \<and> e \<in> set es \<and> filename e = name"
    then obtain c es e where "map_of (collected U d) c = Some es" "e \<in> set es" "filename e = name"
      by blast
    then have "e \<in> snd ` set (filter (\<lambda>p. fst p = c) (plans U d))"
      by (auto simp: map_of_collected split: if_splits)
    then have "(c, e) \<in> set (plans U d)" by auto
    with \<open>filename e = name\<close> show "\<exists>c e. (c, e) \<in> set (plans U d) \<and> filename e = name" by blast
  next
    assume "\<exists>c e. (c, e) \<in> set (plans U d) \<and> filename e = name"
    then obtain c e where ce: "(c, e) \<in> set (plans U d)" "filename e = name" by blast
    then have "(c, e) \<in> set (filter (\<lambda>p. fst p = c) (plans U d))" by simp
    then have "e \<in> set (map snd (filter (\<lambda>p. fst p = c) (plans U d)))" by force
    moreover from this have "map snd (filter (\<lambda>p. fst p = c) (plans U d)) \<noteq> []" by force
    ultimately have "map_of (collected U d) c = Some (map snd (filter (\<lambda>p. fst p = c) (plans U d)))
        \<and> e \<in> set (map snd (filter (\<lambda>p. fst p = c) (plans U d)))"
      by (simp add: map_of_collected)
    with ce show "\<exists>c es e. map_of (collected U d) c = Some es \<and> e \<in> set es \<and> filename e = name"
      by blast
  qed
  also have "\<dots> \<longleftrightarrow> (\<exists>p. plan_of U (map_of d) name = Some p)"
    using assms by (auto simp: set_plans dest: plan_of_filename)
  finally show ?thesis
    unfolding plan_of_Some_iff collect_md_files by simp
qed

theorem required_fields_witness:
  "asc ''a.md'' \<in> set (candidates (md_files scenario))
   \<and> (\<exists>cats err. collect ascii_tables (map_of scenario) (md_files scenario) ([], []) = Inr (cats, err)
     \<and> ((\<exists>c es e. map_of cats c = Some es \<and> e \<in> set es \<and> filename e = asc ''a.md'')
          \<longleftrightarrow> (\<exists>content fm t c ds. map_of scenario (asc ''a.md'') = Some content
                 \<and> parse_front_matter ascii_tables content = Some fm
                 \<and> fm (asc ''title'') = Some t \<and> t \<noteq> []
                 \<and> fm (asc ''category'') = Some c \<and> c \<noteq> []
                 \<and> fm (asc ''description'') = Some ds \<and> ds \<noteq> [])))"
proof -
  have h: "asc ''a.md'' \<in> set (candidates (md_files scenario))" by code_simp
  from h required_fields [OF h] show ?thesis by (rule conjI)
qed

text \<open>
  C2. The category names of the document are the names of the preferred list that have an
  entry, in the order of that list of nine, followed by the other categories that have an
  entry, in ascending order of their strings. The order is the one of the code points,
  so that upper case comes before lower case and \<open>API\<close> and \<open>api\<close> are two categories.
\<close>

theorem category_order:
  "\<exists>lines err others. readme_lines U d = Inr (lines, err)
     \<and> headings lines = filter (\<lambda>c. c \<in> present U d) CATEGORY_ORDER @ others
     \<and> sorted_wrt (<) others
     \<and> set others = present U d - set CATEGORY_ORDER
     \<and> length CATEGORY_ORDER = 9
     \<and> sorted_wrt (<) [asc ''API'', asc ''Zeta'', asc ''api'']"
proof -
  let ?n = "sum_list (map (\<lambda>c. length (the (map_of (groups U d) c))) (ordered_categories (groups U d)))"
  let ?body = "concat (map (section_lines (groups U d)) (ordered_categories (groups U d)))"
  let ?lines = "head_lines ?n @ ?body @ tail_lines"
  let ?others = "sorted_list_of_set (present U d - set CATEGORY_ORDER)"
  have fin: "finite (present U d)" by (simp add: present_def)
  have "map_of (groups U d) c \<noteq> None \<longleftrightarrow> c \<in> present U d" for c
    using keys_groups [of U d] by (simp add: map_of_eq_None_iff)
  then have o: "ordered_categories (groups U d) = filter (\<lambda>c. c \<in> present U d) CATEGORY_ORDER @ ?others"
    using keys_groups [of U d] by (simp add: ordered_categories_def)
  have "headings ?lines = ordered_categories (groups U d)"
    by (simp add: headings_append headings_head headings_tail headings_sections)
  moreover have "sorted_wrt (<) ?others" using fin by simp
  moreover have "set ?others = present U d - set CATEGORY_ORDER" using fin by simp
  moreover have "length CATEGORY_ORDER = 9" by (simp add: CATEGORY_ORDER_def)
  moreover have "sorted_wrt (<) [asc ''API'', asc ''Zeta'', asc ''api'']" by simp
  ultimately show ?thesis using readme_lines_closed [of U d] o by auto
qed

text \<open>
  C3. The document that a run writes has, for every category that has an entry, the bullets
  of a list of entries that is in ascending order of the lower-cased titles, and in which
  the entries with the same lower-cased title are in the order of their insertion, which is
  the order of their files. For the four files of \<open>fruit\<close>, whose titles are inserted as
  \<open>banana\<close>, \<open>apple\<close>, \<open>cherry\<close>, \<open>Apple\<close>, the bullets are those of \<open>apple\<close>, \<open>Apple\<close>,
  \<open>banana\<close>, \<open>cherry\<close>.
\<close>

theorem title_order:
  "\<exists>err n cs es.
      readme_lines U d =
        Inr (head_lines n
             @ concat (map (\<lambda>c. [[], asc ''### '' @ c, []] @ map bullet (es c)) cs)
             @ tail_lines, err)
      \<and> set cs = present U d
      \<and> (\<forall>c. sorted (map (\<lambda>e. lower U (title e)) (es c))
             \<and> (\<forall>k. filter (\<lambda>e. lower U (title e) = k) (es c)
                      = filter (\<lambda>e. lower U (title e) = k) (inserted U d c)))
      \<and> readme_lines ascii_tables fruit =
           Inr (head_lines 4
                @ [[], asc ''### Fruit'', [],
                   fruit_bullet ''apple'' ''2.md'', fruit_bullet ''Apple'' ''4.md'',
                   fruit_bullet ''banana'' ''1.md'', fruit_bullet ''cherry'' ''3.md'']
                @ tail_lines, [])"
proof -
  let ?key = "\<lambda>e. lower U (title e)"
  let ?es = "\<lambda>c. sort_key ?key (inserted U d c)"
  let ?cs = "ordered_categories (groups U d)"
  let ?n = "sum_list (map (\<lambda>c. length (the (map_of (groups U d) c))) ?cs)"
  have sec: "section_lines (groups U d) c = [[], asc ''### '' @ c, []] @ map bullet (?es c)"
    if "c \<in> set ?cs" for c
  proof -
    from that have "map_of (groups U d) c \<noteq> None" by (rule ordered_in_keys)
    then have "map_of (collected U d) c \<noteq> None"
      by (simp add: groups_def map_of_sort_entries)
    then have "map_of (collected U d) c = Some (inserted U d c)"
      by (simp add: map_of_collected inserted_def split: if_splits)
    then have "the (map_of (groups U d) c) = ?es c"
      by (simp add: groups_def map_of_sort_entries)
    then show ?thesis by (simp add: section_lines_def)
  qed
  have m: "map (section_lines (groups U d)) ?cs
          = map (\<lambda>c. [[], asc ''### '' @ c, []] @ map bullet (?es c)) ?cs"
    by (rule map_cong [OF refl]) (rule sec)
  have 1: "readme_lines U d =
        Inr (head_lines ?n
             @ concat (map (\<lambda>c. [[], asc ''### '' @ c, []] @ map bullet (?es c)) ?cs)
             @ tail_lines, stderr_lines U d)"
    unfolding readme_lines_closed m by (rule refl)
  have fin: "finite (present U d)" by (simp add: present_def)
  have "map_of (groups U d) c \<noteq> None \<longleftrightarrow> c \<in> present U d" for c
    using keys_groups [of U d] by (simp add: map_of_eq_None_iff)
  then have 2: "set ?cs = present U d"
    using keys_groups [of U d] fin by (auto simp: ordered_categories_def)
  have 3: "sorted (map ?key (?es c))
             \<and> (\<forall>k. filter (\<lambda>e. ?key e = k) (?es c) = filter (\<lambda>e. ?key e = k) (inserted U d c))"
    for c
    by (simp add: sort_key_stable)
  have 4: "readme_lines ascii_tables fruit =
           Inr (head_lines 4
                @ [[], asc ''### Fruit'', [],
                   fruit_bullet ''apple'' ''2.md'', fruit_bullet ''Apple'' ''4.md'',
                   fruit_bullet ''banana'' ''1.md'', fruit_bullet ''cherry'' ''3.md'']
                @ tail_lines, [])"
    by code_simp
  have 5: "\<forall>c. sorted (map ?key (?es c))
             \<and> (\<forall>k. filter (\<lambda>e. ?key e = k) (?es c) = filter (\<lambda>e. ?key e = k) (inserted U d c))"
    using 3 by blast
  show ?thesis
    by (rule exI [of _ "stderr_lines U d"], rule exI [of _ ?n], rule exI [of _ ?cs],
        rule exI [of _ ?es]) (intro conjI 1 2 5 4)
qed

text \<open>
  C4. The number written into the sentence of the Overview is the number of bullets of
  the document: the run returns its lines, the seventh of them is the sentence with the
  decimal digits of a number \<open>n\<close> in it, and \<open>n\<close> of the lines are bullets.
\<close>

theorem count_accuracy:
  "\<exists>lines err n. readme_lines U d = Inr (lines, err)
      \<and> lines ! 6 =
          asc ''This repository contains '' @ str_nat n
          @ asc '' self-paced learning plans generated with Claude. Each plan follows a''
          @ asc '' phased, project-based format designed for working engineers ''
          @ [0x2014] @ asc '' typically 12'' @ [0x2013]
          @ asc ''16 weeks of focused study with curated resources, hands-on milestones,''
          @ asc '' and progressive complexity. Topics range from Spring Boot internals to''
          @ asc '' Kubernetes, Go, and distributed data systems.''
      \<and> list_all is_digit (str_nat n)
      \<and> decimal (str_nat n) = n
      \<and> length (filter is_bullet lines) = n"
proof -
  let ?n = "sum_list (map (\<lambda>c. length (the (map_of (groups U d) c))) (ordered_categories (groups U d)))"
  let ?body = "concat (map (section_lines (groups U d)) (ordered_categories (groups U d)))"
  let ?lines = "head_lines ?n @ ?body @ tail_lines"
  have "?lines ! 6 = overview ?n"
    by (simp add: nth_append head_lines_def)
  then have "?lines ! 6 =
          asc ''This repository contains '' @ str_nat ?n
          @ asc '' self-paced learning plans generated with Claude. Each plan follows a''
          @ asc '' phased, project-based format designed for working engineers ''
          @ [0x2014] @ asc '' typically 12'' @ [0x2013]
          @ asc ''16 weeks of focused study with curated resources, hands-on milestones,''
          @ asc '' and progressive complexity. Topics range from Spring Boot internals to''
          @ asc '' Kubernetes, Go, and distributed data systems.''"
    by (simp add: overview_def EM_DASH_def EN_DASH_def)
  moreover have "length (filter is_bullet ?lines) = ?n"
    by (simp add: bullets_head bullets_tail bullets_sections)
  ultimately show ?thesis
    using readme_lines_closed [of U d] digits_str_nat [of ?n] decimal_str_nat [of ?n] by blast
qed

text \<open>
  C5. A run writes \<open>README.md\<close> and nothing else, and a second run on the directory that
  the first one leaves prints the same lines and writes the same text. The text does not
  depend on what \<open>README.md\<close> held before the run.
\<close>

theorem idempotence:
  "\<exists>err text. generate_readme U d = Inr (err, AList.update (asc ''README.md'') text d)
     \<and> generate_readme U (AList.update (asc ''README.md'') text d)
         = Inr (err, AList.update (asc ''README.md'') text d)
     \<and> (\<forall>x. generate_readme U (AList.update (asc ''README.md'') x d)
              = Inr (err, AList.update (asc ''README.md'') text d))"
proof -
  have ex: "asc ''README.md'' \<in> EXCLUDED_FILES" by (simp add: EXCLUDED_FILES_def)
  obtain lines err where l: "readme_lines U d = Inr (lines, err)"
    using readme_lines_closed by blast
  have "generate_readme U (AList.update (asc ''README.md'') x d)
          = Inr (err, AList.update (asc ''README.md'') (join [LF] lines) d)" for x
    unfolding generate_readme_def readme_lines_update [OF ex] l by simp
  moreover have "generate_readme U d = Inr (err, AList.update (asc ''README.md'') (join [LF] lines) d)"
    by (simp add: generate_readme_def l)
  ultimately show ?thesis by blast
qed

text \<open>
  C6. The parser returns \<open>None\<close> exactly when the content does not start with three
  hyphens, whitespace, a line feed, any text, a line feed, three hyphens, whitespace and a
  line feed. Whitespace may follow the hyphens of either delimiter, the block has at least
  one line, and the closing delimiter ends with a line feed. A block of one empty line
  gives the empty dictionary, which is not \<open>None\<close>; two delimiter lines with no line
  between them, and a closing delimiter with no line feed after it, give \<open>None\<close>. The
  whitespace is the one of Unicode: a no-break space after the opening hyphens and an
  ideographic space after the closing ones leave the block in place.
\<close>

theorem front_matter_block:
  "(parse_front_matter U content = None \<longleftrightarrow>
      \<not> (\<exists>w1 body w2 rest.
            content = asc ''---'' @ w1 @ [LF] @ body @ [LF] @ asc ''---'' @ w2 @ [LF] @ rest
            \<and> list_all is_space w1 \<and> list_all is_space w2))
   \<and> parse_front_matter U (asc ''---'' @ [LF, LF] @ asc ''---'' @ [LF]) = Some Map.empty
   \<and> parse_front_matter U (asc ''---'' @ [LF] @ asc ''---'' @ [LF]) = None
   \<and> parse_front_matter U (asc ''---'' @ [LF] @ asc ''title: Notes'' @ [LF] @ asc ''---'') = None
   \<and> parse_front_matter U
        (asc ''---'' @ [0xA0, LF] @ asc ''title: a'' @ [LF] @ asc ''---'' @ [0x3000, LF]) \<noteq> None"
proof (intro conjI)
  show "parse_front_matter U content = None \<longleftrightarrow>
      \<not> (\<exists>w1 body w2 rest.
            content = asc ''---'' @ w1 @ [LF] @ body @ [LF] @ asc ''---'' @ w2 @ [LF] @ rest
            \<and> list_all is_space w1 \<and> list_all is_space w2)"
  proof (cases "re_match U FRONT_MATTER content")
    case None
    then have "parse_front_matter U content = None" by (simp add: parse_front_matter_def)
    moreover have "\<not> (\<exists>w1 body w2 rest.
            content = asc ''---'' @ w1 @ [LF] @ body @ [LF] @ asc ''---'' @ w2 @ [LF] @ rest
            \<and> list_all is_space w1 \<and> list_all is_space w2)"
      using front_matter_SomeI None by (metis option.distinct(1))
    ultimately show ?thesis by simp
  next
    case (Some r)
    from front_matter_SomeD [OF Some] obtain w1 body w2 rest where
      d: "content = asc ''---'' @ w1 @ [LF] @ body @ [LF] @ asc ''---'' @ w2 @ [LF] @ rest"
         "list_all is_space w1" "list_all is_space w2" "r = [body @ [LF]]"
      by blast
    have "parse_front_matter U content \<noteq> None"
      using Some d(4) by (simp add: parse_front_matter_def)
    with d show ?thesis by blast
  qed
  show "parse_front_matter U (asc ''---'' @ [LF, LF] @ asc ''---'' @ [LF]) = Some Map.empty"
    by (simp add: parse_front_matter_def re_match_def FRONT_MATTER_def lits_def is_space_def
        splitlines_def is_linebreak_def store_line_def match_line_def
        DOUBLE_QUOTED_def SINGLE_QUOTED_def BARE_def KEY_def)
  show "parse_front_matter U (asc ''---'' @ [LF] @ asc ''---'' @ [LF]) = None"
    by (simp add: parse_front_matter_def re_match_def FRONT_MATTER_def lits_def is_space_def)
  show "parse_front_matter U (asc ''---'' @ [LF] @ asc ''title: Notes'' @ [LF] @ asc ''---'') = None"
    by (simp add: parse_front_matter_def re_match_def FRONT_MATTER_def lits_def is_space_def
        WHITESPACE_def)
  show "parse_front_matter U
        (asc ''---'' @ [0xA0, LF] @ asc ''title: a'' @ [LF] @ asc ''---'' @ [0x3000, LF]) \<noteq> None"
    by (simp add: parse_front_matter_def re_match_def FRONT_MATTER_def lits_def is_space_def
        WHITESPACE_def)
qed

text \<open>
  The first line of this content is three hyphens and a space, not three hyphens alone,
  and the parser returns a dictionary for it.
\<close>

theorem front_matter_block_counterexample:
  "take 4 padded_delimiters = asc ''--- '' \<and> parse_front_matter ascii_tables padded_delimiters \<noteq> None"
  by code_simp

text \<open>
  C7. The dictionary that the parser returns is the one that the loop over the lines of
  the block builds, line by line; a block of one line that has no line boundary in it and
  does not start with whitespace gives what that line stores. For a line made of a key of
  word characters, whitespace, a colon, whitespace and a value in double quotes, the value
  that is stored is the text between the first quote and the quote that ends the line,
  with leading and trailing whitespace removed. The same holds for single quotes, and for
  a bare value that starts with neither a quote nor whitespace: the value of every pattern
  is stripped. The double-quoted pattern comes first: such a line matches the bare pattern
  too, with the quotes in its value. The whitespace and the line boundaries are those of
  Unicode: a value between a no-break space and an em space is stored without them, and a
  line separator ends a line of the block. No character of Python is both in \<open>\w\<close> and in
  \<open>\s\<close>; the tables \<open>U\<close> are arbitrary, so this is asked of the key and of the
  whitespace before the colon.
\<close>

theorem line_patterns:
  assumes "key \<noteq> []" "list_all (\<lambda>c. is_word U c \<and> \<not> is_space c) key"
    and "list_all (\<lambda>c. is_space c \<and> \<not> is_word U c) w1" "list_all is_space w2"
    and "v \<noteq> []" "LF \<notin> set v"
  shows "store_line U (key @ w1 @ [COLON] @ w2 @ [DQUOTE] @ v @ [DQUOTE]) fm = fm(key \<mapsto> strip v)
     \<and> store_line U (key @ w1 @ [COLON] @ w2 @ [SQUOTE] @ v @ [SQUOTE]) fm = fm(key \<mapsto> strip v)
     \<and> (\<not> is_space (hd v) \<and> hd v \<noteq> DQUOTE \<and> hd v \<noteq> SQUOTE
          \<longrightarrow> store_line U (key @ w1 @ [COLON] @ w2 @ v) fm = fm(key \<mapsto> strip v))
     \<and> (line \<noteq> [] \<and> \<not> is_space (hd line) \<and> list_all (\<lambda>c. \<not> is_linebreak c) line
          \<longrightarrow> parse_front_matter U (asc ''---'' @ [LF] @ line @ [LF] @ asc ''---'' @ [LF] @ rest)
                = Some (store_line U line Map.empty))
     \<and> (parse_front_matter U content = Some dict
          \<longrightarrow> (\<exists>s1 body s2 rest.
                 content = asc ''---'' @ s1 @ [LF] @ body @ [LF] @ asc ''---'' @ s2 @ [LF] @ rest
                 \<and> list_all is_space s1 \<and> list_all is_space s2
                 \<and> dict = fold (store_line U) (splitlines (body @ [LF])) Map.empty))
     \<and> store_line U (asc ''title: '' @ [DQUOTE, 0xA0] @ asc ''Go'' @ [0x2003, DQUOTE]) fm
          = fm(asc ''title'' \<mapsto> asc ''Go'')
     \<and> parse_front_matter U
          (asc ''---'' @ [LF] @ asc ''a: 1'' @ [0x2028] @ asc ''b: 2'' @ [LF] @ asc ''---'' @ [LF])
          = Some [asc ''a'' \<mapsto> asc ''1'', asc ''b'' \<mapsto> asc ''2'']"
proof -
  have "store_line U (key @ w1 @ [COLON] @ w2 @ [DQUOTE] @ v @ [DQUOTE]) fm = fm(key \<mapsto> strip v)"
    using double_quoted_line [OF assms] by (simp add: store_line_match)
  moreover have "store_line U (key @ w1 @ [COLON] @ w2 @ [SQUOTE] @ v @ [SQUOTE]) fm
                   = fm(key \<mapsto> strip v)"
    using single_quoted_line [OF assms] by (simp add: store_line_match)
  moreover have "\<not> is_space (hd v) \<and> hd v \<noteq> DQUOTE \<and> hd v \<noteq> SQUOTE
          \<longrightarrow> store_line U (key @ w1 @ [COLON] @ w2 @ v) fm = fm(key \<mapsto> strip v)"
    using bare_line [OF assms] by (simp add: store_line_match)
  moreover have "line \<noteq> [] \<and> \<not> is_space (hd line) \<and> list_all (\<lambda>c. \<not> is_linebreak c) line
          \<longrightarrow> parse_front_matter U (asc ''---'' @ [LF] @ line @ [LF] @ asc ''---'' @ [LF] @ rest)
                = Some (store_line U line Map.empty)"
    using parse_one_line [of line U rest] by blast
  moreover have "parse_front_matter U content = Some dict
          \<longrightarrow> (\<exists>s1 body s2 rest.
                 content = asc ''---'' @ s1 @ [LF] @ body @ [LF] @ asc ''---'' @ s2 @ [LF] @ rest
                 \<and> list_all is_space s1 \<and> list_all is_space s2
                 \<and> dict = fold (store_line U) (splitlines (body @ [LF])) Map.empty)"
    using parse_is_fold [of U content dict] by blast
  ultimately show ?thesis using nbsp_value [of U fm] separator_lines [of U] by blast
qed

theorem line_patterns_witness:
  "asc ''title'' \<noteq> []
   \<and> list_all (\<lambda>c. is_word ascii_tables c \<and> \<not> is_space c) (asc ''title'')
   \<and> list_all (\<lambda>c. is_space c \<and> \<not> is_word ascii_tables c) []
   \<and> list_all is_space (asc '' '')
   \<and> asc ''Go  '' \<noteq> [] \<and> LF \<notin> set (asc ''Go  '')
   \<and> \<not> is_space (hd (asc ''Go  '')) \<and> hd (asc ''Go  '') \<noteq> DQUOTE \<and> hd (asc ''Go  '') \<noteq> SQUOTE
   \<and> store_line ascii_tables (asc ''title'' @ [] @ [COLON] @ asc '' '' @ [DQUOTE] @ asc ''Go  '' @ [DQUOTE])
        Map.empty = [asc ''title'' \<mapsto> asc ''Go'']
   \<and> store_line ascii_tables (asc ''title'' @ [] @ [COLON] @ asc '' '' @ [SQUOTE] @ asc ''Go  '' @ [SQUOTE])
        Map.empty = [asc ''title'' \<mapsto> asc ''Go'']
   \<and> store_line ascii_tables (asc ''title'' @ [] @ [COLON] @ asc '' '' @ asc ''Go  '')
        Map.empty = [asc ''title'' \<mapsto> asc ''Go'']
   \<and> parse_front_matter ascii_tables
        (asc ''---'' @ [LF] @ padded_title @ [LF] @ asc ''---'' @ [LF] @ [])
        = Some [asc ''title'' \<mapsto> asc ''Go'']
   \<and> (\<exists>s1 body s2 rest.
         asc ''---'' @ [LF] @ padded_title @ [LF] @ asc ''---'' @ [LF] @ []
           = asc ''---'' @ s1 @ [LF] @ body @ [LF] @ asc ''---'' @ s2 @ [LF] @ rest
         \<and> list_all is_space s1 \<and> list_all is_space s2
         \<and> [asc ''title'' \<mapsto> asc ''Go'']
             = fold (store_line ascii_tables) (splitlines (body @ [LF])) Map.empty)"
proof -
  let ?content = "asc ''---'' @ [LF] @ padded_title @ [LF] @ asc ''---'' @ [LF] @ []"
  have h: "asc ''title'' \<noteq> []"
    "list_all (\<lambda>c. is_word ascii_tables c \<and> \<not> is_space c) (asc ''title'')"
    "list_all (\<lambda>c. is_space c \<and> \<not> is_word ascii_tables c) []"
    "list_all is_space (asc '' '')" "asc ''Go  '' \<noteq> []" "LF \<notin> set (asc ''Go  '')"
    by (simp_all add: is_word_def is_space_def WHITESPACE_def)
  have b: "\<not> is_space (hd (asc ''Go  ''))" "hd (asc ''Go  '') \<noteq> DQUOTE"
    "hd (asc ''Go  '') \<noteq> SQUOTE"
    by (simp_all add: is_space_def WHITESPACE_def)
  have s: "strip (asc ''Go  '') = asc ''Go''"
    by (simp add: strip_def is_space_def WHITESPACE_def)
  have l: "padded_title \<noteq> []" "\<not> is_space (hd padded_title)"
    "list_all (\<lambda>c. \<not> is_linebreak c) padded_title"
    by (simp_all add: padded_title_def is_space_def WHITESPACE_def is_linebreak_def
        LINE_BOUNDARIES_def)
  have p: "store_line ascii_tables padded_title Map.empty = [asc ''title'' \<mapsto> asc ''Go'']"
    using line_patterns [OF h(1-4), where v = "asc ''  Go  ''" and fm = Map.empty]
    by (simp add: padded_title_def strip_def is_space_def WHITESPACE_def)
  note t = line_patterns [OF h, where fm = Map.empty and line = padded_title and rest = "[]"
      and content = ?content and dict = "[asc ''title'' \<mapsto> asc ''Go'']"]
  have 4: "parse_front_matter ascii_tables ?content = Some [asc ''title'' \<mapsto> asc ''Go'']"
    using t l p by simp
  from t b 4 h show ?thesis unfolding s by blast
qed

text \<open>
  The text between the quotes of this line is \<open>Go\<close> with two spaces on either side; the
  value that is stored is \<open>Go\<close>.
\<close>

theorem line_patterns_counterexample:
  "re_match ascii_tables DOUBLE_QUOTED padded_title = Some [asc ''title'', asc ''  Go  '']
   \<and> store_line ascii_tables padded_title Map.empty (asc ''title'') = Some (asc ''Go'')"
  by code_simp

text \<open>
  C8. The last line of the document is empty and the line before it is the closing
  paragraph, which is not: the text that is written ends with the closing paragraph and
  one line feed.
\<close>

theorem trailing_blank_line:
  "\<exists>pre err. readme_lines U d = Inr (pre @ [closing_paragraph, []], err)
      \<and> closing_paragraph \<noteq> []
      \<and> generate_readme U d =
          Inr (err, AList.update (asc ''README.md'') (join [LF] pre @ [LF] @ closing_paragraph @ [LF]) d)"
proof -
  let ?n = "sum_list (map (\<lambda>c. length (the (map_of (groups U d) c))) (ordered_categories (groups U d)))"
  let ?body = "concat (map (section_lines (groups U d)) (ordered_categories (groups U d)))"
  let ?pre = "head_lines ?n @ ?body @ butlast (butlast tail_lines)"
  have t: "tail_lines = butlast (butlast tail_lines) @ [closing_paragraph, []]"
    by (simp add: tail_lines_def)
  have ne: "?pre \<noteq> []" by (simp add: head_lines_def)
  have l: "readme_lines U d = Inr (?pre @ [closing_paragraph, []], stderr_lines U d)"
    using readme_lines_closed [of U d] t by simp
  have c: "closing_paragraph \<noteq> []" by (simp add: closing_paragraph_def)
  have "generate_readme U d =
          Inr (stderr_lines U d, AList.update (asc ''README.md'') (join [LF] ?pre @ [LF] @ closing_paragraph @ [LF]) d)"
    unfolding generate_readme_def l using join_snoc2 [OF ne] by simp
  with l c show ?thesis by blast
qed



text \<open>
  C10. A line whose value is two double quotes with nothing between them does not match
  the double-quoted pattern, and the value that is stored for its key is the two quote
  characters. A file whose \<open>title\<close>, \<open>category\<close> and \<open>description\<close> are such lines is
  not skipped: the loop ends with one entry for it and no warning. No character of Python
  is both in \<open>\w\<close> and in \<open>\s\<close>; the tables \<open>U\<close> are arbitrary, so this is asked of the
  key and of the whitespace before the colon.
\<close>

theorem empty_quoted_value:
  assumes "key \<noteq> []" "list_all (\<lambda>c. is_word U c \<and> \<not> is_space c) key"
    and "list_all (\<lambda>c. is_space c \<and> \<not> is_word U c) w1" "list_all is_space w2"
  shows "re_match U DOUBLE_QUOTED (key @ w1 @ [COLON] @ w2 @ [DQUOTE, DQUOTE]) = None
     \<and> store_line U (key @ w1 @ [COLON] @ w2 @ [DQUOTE, DQUOTE]) fm = fm(key \<mapsto> [DQUOTE, DQUOTE])
     \<and> collect ascii_tables (map_of empty_quoted) (md_files empty_quoted) ([], []) =
         Inr ([([DQUOTE, DQUOTE],
                [\<lparr>title = [DQUOTE, DQUOTE], description = [DQUOTE, DQUOTE],
                  filename = asc ''quoted.md''\<rparr>])], [])"
proof -
  let ?line = "key @ w1 @ COLON # w2 @ [DQUOTE, DQUOTE]"
  have st: "stops is_space [DQUOTE, DQUOTE]" by (simp add: is_space_simps)
  have dq: "re_match U DOUBLE_QUOTED ?line = None"
    unfolding DOUBLE_QUOTED_eq
    by (rule KEY_None [OF assms st]) (simp_all add: is_space_simps)
  have "re_match U SINGLE_QUOTED ?line = None"
    unfolding SINGLE_QUOTED_eq
    by (rule KEY_None [OF assms st]) (simp_all add: is_space_simps)
  moreover have "run U [GOpen, Plus Dot, GClose, Eos] [DQUOTE, DQUOTE] [] [key]
                   = Some [key, [DQUOTE, DQUOTE]]"
    by (rule bare_tail) simp_all
  from KEY_SomeI [OF assms st this]
  have "re_match U BARE ?line = Some [key, [DQUOTE, DQUOTE]]"
    by (simp add: re_match_def BARE_def)
  ultimately have "match_line U ?line = Some [key, [DQUOTE, DQUOTE]]"
    using dq by (simp add: match_line_def)
  then have "store_line U ?line fm = fm(key \<mapsto> [DQUOTE, DQUOTE])"
    by (simp add: store_line_match strip_def is_space_simps)
  moreover have "collect ascii_tables (map_of empty_quoted) (md_files empty_quoted) ([], []) =
         Inr ([([DQUOTE, DQUOTE],
                [\<lparr>title = [DQUOTE, DQUOTE], description = [DQUOTE, DQUOTE],
                  filename = asc ''quoted.md''\<rparr>])], [])"
    by code_simp
  ultimately show ?thesis using dq by simp
qed

theorem empty_quoted_value_witness:
  "asc ''title'' \<noteq> []
   \<and> list_all (\<lambda>c. is_word ascii_tables c \<and> \<not> is_space c) (asc ''title'')
   \<and> list_all (\<lambda>c. is_space c \<and> \<not> is_word ascii_tables c) []
   \<and> list_all is_space (asc '' '')
   \<and> re_match ascii_tables DOUBLE_QUOTED (asc ''title'' @ [] @ [COLON] @ asc '' '' @ [DQUOTE, DQUOTE]) = None
   \<and> store_line ascii_tables (asc ''title'' @ [] @ [COLON] @ asc '' '' @ [DQUOTE, DQUOTE]) Map.empty
        = [asc ''title'' \<mapsto> [DQUOTE, DQUOTE]]"
proof -
  have h: "asc ''title'' \<noteq> []"
    "list_all (\<lambda>c. is_word ascii_tables c \<and> \<not> is_space c) (asc ''title'')"
    "list_all (\<lambda>c. is_space c \<and> \<not> is_word ascii_tables c) []"
    "list_all is_space (asc '' '')"
    by (simp_all add: is_word_def is_space_def WHITESPACE_def)
  from empty_quoted_value [OF h, of Map.empty] h show ?thesis by blast
qed

end
